theory Spec2Isabelle
  imports Main
begin

section \<open>Tokens and errors\<close>

text \<open>
  The token types of \<^verbatim>\<open>source/tokenizer/tokenizer.ts\<close> and the token record.
  The fields of a token are \<^verbatim>\<open>type\<close>, \<^verbatim>\<open>value\<close>, \<^verbatim>\<open>position\<close>, \<^verbatim>\<open>line\<close> and
  \<^verbatim>\<open>column\<close>; they carry the prefix \<open>tok_\<close> here because the tokenizer's own cursor
  has fields of the same names.

  Strings are lists of HOL characters. The tokenizer only tells apart the space, the tab,
  the line feed, the carriage return and the two parentheses, and the keyword test only
  the letters of \<^verbatim>\<open>and\<close>, \<^verbatim>\<open>or\<close> and \<^verbatim>\<open>not\<close>; every other character is opaque to it.
\<close>

datatype TokenType = IDENTIFIER | AND | OR | NOT | LEFT_PAREN | RIGHT_PAREN | EOF

record Token =
  tok_type :: TokenType
  tok_value :: string
  tok_position :: nat
  tok_line :: nat
  tok_column :: nat

text \<open>
  Everything the pipeline can throw. \<open>TokenizerError message position line column\<close> and
  \<open>ParseError message position line column expected actual\<close> are the two error classes
  of the repository; \<open>TypeError\<close> is what the JavaScript runtime raises when a property
  of \<^verbatim>\<open>undefined\<close> is read (an out-of-range token access followed by \<^verbatim>\<open>.type\<close>) or when
  a value that is not a function is called.
\<close>

datatype error =
    TokenizerError string nat nat nat
  | ParseError string nat nat nat string string
  | TypeError

section \<open>Tokenizer\<close>

record Tokenizer =
  input :: string
  position :: nat
  line :: nat
  column :: nat

definition isWhitespace :: "char option \<Rightarrow> bool" where
  "isWhitespace char \<longleftrightarrow>
     char = Some (CHR '' '') \<or> char = Some (CHR 0x09) \<or> char = Some (CHR 0x0A) \<or> char = Some (CHR 0x0D)"

definition peek :: "Tokenizer \<Rightarrow> char option" where
  "peek st = (if position st \<ge> length (input st) then None else Some (input st ! position st))"

definition advance :: "Tokenizer \<Rightarrow> Tokenizer" where
  "advance st =
     (if position st < length (input st)
      then st\<lparr>position := position st + 1, column := column st + 1\<rparr>
      else st)"

definition createToken :: "TokenType \<Rightarrow> string \<Rightarrow> Tokenizer \<Rightarrow> Token" where
  "createToken ty v st =
     \<lparr>tok_type = ty, tok_value = v, tok_position = position st, tok_line = line st, tok_column = column st\<rparr>"

text \<open>
  \<^verbatim>\<open>#skipWhitespace\<close>: the labelled while loop. A carriage return also swallows a line
  feed that follows it. The \<open>None\<close> branch is the \<^verbatim>\<open>default\<close> case reached with
  \<^verbatim>\<open>null\<close>.
\<close>

function skipWhitespace :: "Tokenizer \<Rightarrow> Tokenizer" where
  "skipWhitespace st =
     (if position st < length (input st) then
        (case peek st of
           Some c \<Rightarrow>
             if c = CHR '' '' \<or> c = CHR 0x09 then skipWhitespace (advance st)
             else if c = CHR 0x0A then
               skipWhitespace ((advance st)\<lparr>line := line (advance st) + 1, column := 1\<rparr>)
             else if c = CHR 0x0D then
               (let st1 = advance st;
                    st2 = (if peek st1 = Some (CHR 0x0A) then advance st1 else st1)
                in skipWhitespace (st2\<lparr>line := line st2 + 1, column := 1\<rparr>))
             else st
         | None \<Rightarrow> st)
      else st)"
  by pat_completeness auto
termination
  by (relation "measure (\<lambda>st. length (input st) - position st)")
     (auto simp: advance_def peek_def Let_def)

declare skipWhitespace.simps [simp del]

text \<open>
  \<^verbatim>\<open>#readIdentifier\<close>: the loop with its accumulator \<^verbatim>\<open>value\<close>. Appending \<^verbatim>\<open>null\<close> to a
  string appends the four characters of its name.
\<close>

function readIdentifier_loop :: "string \<Rightarrow> Tokenizer \<Rightarrow> string \<times> Tokenizer" where
  "readIdentifier_loop val st =
     (if position st < length (input st) then
        (let char = peek st in
         if isWhitespace char \<or> char = Some (CHR ''('') \<or> char = Some (CHR '')'') then (val, st)
         else readIdentifier_loop
                (val @ (case char of Some c \<Rightarrow> [c] | None \<Rightarrow> ''null'')) (advance st))
      else (val, st))"
  by pat_completeness auto
termination
  by (relation "measure (\<lambda>(val, st). length (input st) - position st)")
     (auto simp: advance_def)

declare readIdentifier_loop.simps [simp del]

definition readIdentifier :: "Tokenizer \<Rightarrow> string \<times> Tokenizer" where
  "readIdentifier st = readIdentifier_loop [] st"

text \<open>
  Lower-casing, for \<^verbatim>\<open>toLocaleLowerCase\<close>. Of all characters only the letters \<^verbatim>\<open>A\<close> to
  \<^verbatim>\<open>Z\<close> lower-case to a letter of a keyword, whatever the locale, so the model folds
  those and leaves every other character as it is.
\<close>

definition upperLetters :: string where
  "upperLetters = ''ABCDEFGHIJKLMNOPQRSTUVWXYZ''"

definition lowerLetters :: string where
  "lowerLetters = ''abcdefghijklmnopqrstuvwxyz''"

definition toLowerChar :: "char \<Rightarrow> char" where
  "toLowerChar c = (case map_of (zip upperLetters lowerLetters) c of Some l \<Rightarrow> l | None \<Rightarrow> c)"

definition toLocaleLowerCase :: "string \<Rightarrow> string" where
  "toLocaleLowerCase s = map toLowerChar s"

definition matchKeyword :: "string \<Rightarrow> TokenType option" where
  "matchKeyword ident =
     (let l = toLocaleLowerCase ident in
      if l = ''and'' then Some AND
      else if l = ''or'' then Some OR
      else if l = ''not'' then Some NOT
      else None)"

definition readIdentifierOrKeyword :: "Tokenizer \<Rightarrow> error + (Token \<times> Tokenizer)" where
  "readIdentifierOrKeyword st =
     (let startPosition = position st;
          startLine = line st;
          startColumn = column st;
          (val, st') = readIdentifier st
      in if length val = 0 then
           Inl (TokenizerError
                  (''Unexpected character '' @ [CHR 0x27]
                     @ (case peek st' of Some c \<Rightarrow> [c] | None \<Rightarrow> ''null'') @ [CHR 0x27])
                  (position st') (line st') (column st'))
         else
           (case matchKeyword val of
              None \<Rightarrow>
                Inr (\<lparr>tok_type = IDENTIFIER, tok_value = val, tok_position = startPosition,
                      tok_line = startLine, tok_column = startColumn\<rparr>, st')
            | Some keywordType \<Rightarrow>
                Inr (\<lparr>tok_type = keywordType, tok_value = val, tok_position = startPosition,
                      tok_line = startLine, tok_column = startColumn\<rparr>, st')))"

definition nextToken :: "Tokenizer \<Rightarrow> error + (Token \<times> Tokenizer)" where
  "nextToken st =
     (let st1 = skipWhitespace st in
      if position st1 \<ge> length (input st1) then Inr (createToken EOF '''' st1, st1)
      else
        (case peek st1 of
           Some c \<Rightarrow>
             if c = CHR ''('' then Inr (createToken LEFT_PAREN ''('' st1, advance st1)
             else if c = CHR '')'' then Inr (createToken RIGHT_PAREN '')'' st1, advance st1)
             else readIdentifierOrKeyword st1
         | None \<Rightarrow> readIdentifierOrKeyword st1))"

subsection \<open>What the scanner reads\<close>

text \<open>
  The loops of the scanner, described by the characters from the cursor on.
  \<open>isDelimiter\<close> is the condition on which \<^verbatim>\<open>#readIdentifier\<close> stops, \<open>isSpaceChar\<close> is
  \<^verbatim>\<open>isWhitespace\<close> on a character, and \<open>wsNext\<close> is the state after one round of the loop
  of \<^verbatim>\<open>#skipWhitespace\<close> on a whitespace character.
\<close>

definition isDelimiter :: "char \<Rightarrow> bool" where
  "isDelimiter c \<longleftrightarrow> isWhitespace (Some c) \<or> c = CHR ''('' \<or> c = CHR '')''"

definition isSpaceChar :: "char \<Rightarrow> bool" where
  "isSpaceChar c \<longleftrightarrow> isWhitespace (Some c)"

definition wsNext :: "Tokenizer \<Rightarrow> Tokenizer" where
  "wsNext st =
     (if input st ! position st = CHR 0x0A then (advance st)\<lparr>line := line (advance st) + 1, column := 1\<rparr>
      else if input st ! position st = CHR 0x0D then
        (let st1 = advance st;
             st2 = (if peek st1 = Some (CHR 0x0A) then advance st1 else st1)
         in st2\<lparr>line := line st2 + 1, column := 1\<rparr>)
      else advance st)"

lemma advance_input [simp]: "input (advance st) = input st"
  by (simp add: advance_def)

lemma advance_position: "position st < length (input st) \<Longrightarrow> position (advance st) = Suc (position st)"
  by (simp add: advance_def)

lemma peek_Some: "position st < length (input st) \<Longrightarrow> peek st = Some (input st ! position st)"
  by (simp add: peek_def)

lemma peek_None: "\<not> position st < length (input st) \<Longrightarrow> peek st = None"
  by (simp add: peek_def)

lemma skipWhitespace_unfold:
  "skipWhitespace st =
     (if position st < length (input st) \<and> isWhitespace (peek st) then skipWhitespace (wsNext st) else st)"
proof (cases "position st < length (input st)")
  case True
  then show ?thesis
    by (subst skipWhitespace.simps)
       (auto simp: peek_Some wsNext_def isWhitespace_def Let_def)
next
  case False
  then show ?thesis
    by (subst skipWhitespace.simps) simp
qed

lemma wsNext_input [simp]: "input (wsNext st) = input st"
  by (simp add: wsNext_def Let_def)

lemma wsNext_position:
  assumes "position st < length (input st)" and "isWhitespace (peek st)"
  shows "position st < position (wsNext st)"
    and "position (wsNext st) \<le> length (input st)"
    and "position (wsNext st) + length (takeWhile isSpaceChar (drop (position (wsNext st)) (input st)))
           = position st + length (takeWhile isSpaceChar (drop (position st) (input st)))"
proof -
  let ?p = "position st" and ?xs = "input st"
  have d: "drop ?p ?xs = ?xs ! ?p # drop (Suc ?p) ?xs"
    using assms(1) by (simp add: Cons_nth_drop_Suc)
  have w: "isSpaceChar (?xs ! ?p)"
    using assms by (simp add: isSpaceChar_def peek_Some)
  have a1: "position (advance st) = Suc ?p"
    using assms(1) by (rule advance_position)
  have "position st < position (wsNext st) \<and> position (wsNext st) \<le> length (input st) \<and>
        position (wsNext st) + length (takeWhile isSpaceChar (drop (position (wsNext st)) (input st)))
           = position st + length (takeWhile isSpaceChar (drop (position st) (input st)))"
  proof (cases "?xs ! ?p = CHR 0x0D \<and> peek (advance st) = Some (CHR 0x0A)")
    case False
    then have "position (wsNext st) = Suc ?p"
      using a1 by (auto simp: wsNext_def Let_def)
    then show ?thesis using d w assms(1) by simp
  next
    case True
    then have lt: "Suc ?p < length ?xs" and nl: "?xs ! Suc ?p = CHR 0x0A"
      using a1 by (auto simp: peek_def split: if_splits)
    have d2: "drop (Suc ?p) ?xs = ?xs ! Suc ?p # drop (Suc (Suc ?p)) ?xs"
      using lt by (simp add: Cons_nth_drop_Suc)
    have w2: "isSpaceChar (?xs ! Suc ?p)"
      using nl by (simp add: isSpaceChar_def isWhitespace_def)
    have "position (advance (advance st)) = Suc (Suc ?p)"
      using lt a1 advance_position[of "advance st"] by simp
    then have "position (wsNext st) = Suc (Suc ?p)"
      using True by (auto simp: wsNext_def Let_def)
    then show ?thesis using d d2 w w2 lt by simp
  qed
  then show "position st < position (wsNext st)"
    and "position (wsNext st) \<le> length (input st)"
    and "position (wsNext st) + length (takeWhile isSpaceChar (drop (position (wsNext st)) (input st)))
           = position st + length (takeWhile isSpaceChar (drop (position st) (input st)))"
    by simp_all
qed

lemma skipWhitespace_spec:
  "input (skipWhitespace st) = input st \<and>
   position (skipWhitespace st) =
     position st + length (takeWhile isSpaceChar (drop (position st) (input st)))"
proof (induction "length (input st) - position st" arbitrary: st rule: less_induct)
  case less
  show ?case
  proof (cases "position st < length (input st) \<and> isWhitespace (peek st)")
    case False
    then have "takeWhile isSpaceChar (drop (position st) (input st)) = []"
      by (cases "position st < length (input st)")
         (auto simp: isSpaceChar_def peek_Some Cons_nth_drop_Suc[symmetric])
    moreover have "skipWhitespace st = st"
      using False by (subst skipWhitespace_unfold) auto
    ultimately show ?thesis by simp
  next
    case True
    then have lt: "position st < length (input st)" and ws: "isWhitespace (peek st)"
      by simp_all
    note n = wsNext_position[OF lt ws]
    have "length (input (wsNext st)) - position (wsNext st) < length (input st) - position st"
      using n(1,2) lt by simp
    from less[OF this] have
      ih: "input (skipWhitespace (wsNext st)) = input st"
          "position (skipWhitespace (wsNext st)) =
             position (wsNext st) + length (takeWhile isSpaceChar (drop (position (wsNext st)) (input st)))"
      by simp_all
    have u: "skipWhitespace st = skipWhitespace (wsNext st)"
      using True by (subst skipWhitespace_unfold) simp
    show ?thesis unfolding u using ih n(3) by simp
  qed
qed

lemma readIdentifier_loop_spec:
  "readIdentifier_loop val st =
     (let run = takeWhile (\<lambda>c. \<not> isDelimiter c) (drop (position st) (input st))
      in (val @ run, st\<lparr>position := position st + length run, column := column st + length run\<rparr>))"
proof (induction val st rule: readIdentifier_loop.induct)
  case (1 val st)
  show ?case
  proof (cases "position st < length (input st)")
    case False
    then show ?thesis by (subst readIdentifier_loop.simps) simp
  next
    case True
    let ?c = "input st ! position st"
    have d: "drop (position st) (input st) = ?c # drop (Suc (position st)) (input st)"
      using True by (simp add: Cons_nth_drop_Suc)
    have pk: "peek st = Some ?c"
      using True by (rule peek_Some)
    show ?thesis
    proof (cases "isDelimiter ?c")
      case stop: True
      then show ?thesis
        using True pk d
        by (subst readIdentifier_loop.simps) (auto simp: Let_def isDelimiter_def)
    next
      case go: False
      then have g: "\<not> (isWhitespace (peek st) \<or> peek st = Some (CHR ''('') \<or> peek st = Some (CHR '')''))"
        using pk by (auto simp: isDelimiter_def)
      have u: "readIdentifier_loop val st = readIdentifier_loop (val @ [?c]) (advance st)"
        using True g pk by (subst readIdentifier_loop.simps) (simp add: Let_def)
      have ih: "readIdentifier_loop (val @ [?c]) (advance st) =
           (let run = takeWhile (\<lambda>c. \<not> isDelimiter c) (drop (position (advance st)) (input (advance st)))
            in ((val @ [?c]) @ run,
                (advance st)\<lparr>position := position (advance st) + length run,
                              column := column (advance st) + length run\<rparr>))"
        using "1.IH"[OF True refl g] pk by simp
      show ?thesis
        unfolding u ih using True go d
        by (simp add: Let_def advance_def)
    qed
  qed
qed

text \<open>The type that \<^verbatim>\<open>#readIdentifierOrKeyword\<close> gives to a run.\<close>

definition classify :: "string \<Rightarrow> TokenType" where
  "classify run = (case matchKeyword run of None \<Rightarrow> IDENTIFIER | Some keywordType \<Rightarrow> keywordType)"

lemma classify_not_EOF: "classify run \<noteq> EOF"
  by (simp add: classify_def matchKeyword_def Let_def)

lemma readIdentifierOrKeyword_spec:
  assumes "position st < length (input st)" and "\<not> isDelimiter (input st ! position st)"
  defines "run \<equiv> takeWhile (\<lambda>c. \<not> isDelimiter c) (drop (position st) (input st))"
  shows "run \<noteq> []"
    and "readIdentifierOrKeyword st =
      Inr (\<lparr>tok_type = classify run, tok_value = run, tok_position = position st,
            tok_line = line st, tok_column = column st\<rparr>,
           st\<lparr>position := position st + length run, column := column st + length run\<rparr>)"
proof -
  have d: "drop (position st) (input st) = input st ! position st # drop (Suc (position st)) (input st)"
    using assms(1) by (simp add: Cons_nth_drop_Suc)
  show ne: "run \<noteq> []"
    using assms(2) d by (simp add: run_def)
  show "readIdentifierOrKeyword st =
      Inr (\<lparr>tok_type = classify run, tok_value = run, tok_position = position st,
            tok_line = line st, tok_column = column st\<rparr>,
           st\<lparr>position := position st + length run, column := column st + length run\<rparr>)"
    using ne
    by (simp add: readIdentifierOrKeyword_def readIdentifier_def readIdentifier_loop_spec
          run_def[symmetric] Let_def classify_def split: option.split)
qed

text \<open>What \<^verbatim>\<open>#nextToken\<close> returns, read off the characters from the cursor on.\<close>

text \<open>
  \<open>tokenAt rest tok rest'\<close>: the token \<open>tok\<close> is the one that starts the characters
  \<open>rest\<close>, which begin with no whitespace, and \<open>rest'\<close> is what follows it.
\<close>

definition tokenAt :: "string \<Rightarrow> Token \<Rightarrow> string \<Rightarrow> bool" where
  "tokenAt rest tok rest' \<longleftrightarrow>
     (case rest of
        [] \<Rightarrow> tok_type tok = EOF \<and> tok_value tok = [] \<and> rest' = []
      | c # cs \<Rightarrow>
          if c = CHR ''('' then tok_type tok = LEFT_PAREN \<and> tok_value tok = ''('' \<and> rest' = cs
          else if c = CHR '')'' then tok_type tok = RIGHT_PAREN \<and> tok_value tok = '')'' \<and> rest' = cs
          else tok_type tok = classify (takeWhile (\<lambda>c. \<not> isDelimiter c) rest) \<and>
               tok_value tok = takeWhile (\<lambda>c. \<not> isDelimiter c) rest \<and>
               tok_value tok \<noteq> [] \<and>
               rest' = dropWhile (\<lambda>c. \<not> isDelimiter c) rest)"

lemma nextToken_spec:
  fixes st :: Tokenizer
  defines "rest \<equiv> dropWhile isSpaceChar (drop (position st) (input st))"
  shows "\<exists>tok st'. nextToken st = Inr (tok, st') \<and> input st' = input st \<and>
           position st \<le> position st' \<and>
           (position st \<le> length (input st) \<longrightarrow> position st' \<le> length (input st)) \<and>
           (rest \<noteq> [] \<longrightarrow> position st < position st' \<and> position st < length (input st)) \<and>
           tokenAt rest tok (drop (position st') (input st))"
proof -
  define s1 where "s1 = skipWhitespace st"
  let ?xs = "input st"
  have i1: "input s1 = ?xs"
    and p1: "position s1 = position st + length (takeWhile isSpaceChar (drop (position st) ?xs))"
    using skipWhitespace_spec[of st] by (simp_all add: s1_def)
  have r: "rest = drop (position s1) ?xs"
    by (simp add: rest_def p1 dropWhile_eq_drop add.commute)
  show ?thesis
  proof (cases "position s1 < length ?xs")
    case False
    then have "rest = []" using r by simp
    moreover have "nextToken st = Inr (createToken EOF [] s1, s1)"
      using False i1 by (simp add: nextToken_def s1_def[symmetric] Let_def)
    moreover have "position st \<le> length ?xs \<longrightarrow> position s1 \<le> length ?xs"
    proof
      assume "position st \<le> length ?xs"
      have "length (takeWhile isSpaceChar (drop (position st) ?xs)) \<le> length (drop (position st) ?xs)"
        by (rule length_takeWhile_le)
      then show "position s1 \<le> length ?xs"
        using p1 \<open>position st \<le> length ?xs\<close> by simp
    qed
    ultimately show ?thesis
      using i1 p1 r by (simp add: createToken_def tokenAt_def)
  next
    case True
    let ?c = "?xs ! position s1"
    have d: "rest = ?c # drop (Suc (position s1)) ?xs"
      using True r by (simp add: Cons_nth_drop_Suc)
    have pk: "peek s1 = Some ?c"
      using True i1 by (simp add: peek_def)
    have lt: "position st < length ?xs"
      using True p1 by simp
    have nws: "\<not> isSpaceChar ?c"
    proof -
      have "rest \<noteq> []" using d by simp
      then have "\<not> isSpaceChar (hd rest)"
        unfolding rest_def by (rule hd_dropWhile)
      then show ?thesis using d by simp
    qed
    have adv: "position (advance s1) = Suc (position s1)" "input (advance s1) = ?xs"
      using True i1 by (simp_all add: advance_def)
    show ?thesis
    proof (cases "?c = CHR ''('' \<or> ?c = CHR '')''")
      case paren: True
      then have "nextToken st =
          Inr (createToken (if ?c = CHR ''('' then LEFT_PAREN else RIGHT_PAREN) [?c] s1, advance s1)"
        using True i1 pk by (auto simp: nextToken_def s1_def[symmetric] Let_def)
      then show ?thesis
        using paren d adv p1 True lt by (auto simp: createToken_def tokenAt_def)
    next
      case other: False
      then have nd: "\<not> isDelimiter (input s1 ! position s1)"
        using nws i1 by (simp add: isDelimiter_def isSpaceChar_def)
      have lt1: "position s1 < length (input s1)"
        using True i1 by simp
      let ?run = "takeWhile (\<lambda>c. \<not> isDelimiter c) rest"
      have run: "takeWhile (\<lambda>c. \<not> isDelimiter c) (drop (position s1) (input s1)) = ?run"
        using r i1 by simp
      note k = readIdentifierOrKeyword_spec[OF lt1 nd, unfolded run]
      have n: "nextToken st = readIdentifierOrKeyword s1"
        using True i1 pk other by (auto simp: nextToken_def s1_def[symmetric] Let_def)
      have dr: "drop (position s1 + length ?run) ?xs = dropWhile (\<lambda>c. \<not> isDelimiter c) rest"
        by (simp add: r dropWhile_eq_drop add.commute)
      have le: "position s1 + length ?run \<le> length ?xs"
      proof -
        have "length ?run \<le> length rest" by (rule length_takeWhile_le)
        then show ?thesis using r True by simp
      qed
      have pos: "0 < length ?run" using k(1) by simp
      show ?thesis
        unfolding n k(2) using k(1) pos d other i1 p1 dr le lt
        by (simp add: tokenAt_def)
    qed
  qed
qed

lemma nextToken_total: "\<exists>tok st'. nextToken st = Inr (tok, st')"
  using nextToken_spec[of st] by blast

lemma tokenAt_EOF: "tokenAt rest tok rest' \<Longrightarrow> tok_type tok = EOF \<longleftrightarrow> rest = []"
  using classify_not_EOF by (auto simp: tokenAt_def split: list.splits if_splits)

lemma nextToken_progress:
  assumes "nextToken st = Inr (token, st')" and "tok_type token \<noteq> EOF"
  shows "position st < position st'" and "input st' = input st" and "position st < length (input st)"
    and "position st' \<le> length (input st)"
proof -
  let ?rest = "dropWhile isSpaceChar (drop (position st) (input st))"
  obtain tok s' where n: "nextToken st = Inr (tok, s')" and i: "input s' = input st"
    and b: "position st \<le> length (input st) \<longrightarrow> position s' \<le> length (input st)"
    and c: "?rest \<noteq> [] \<longrightarrow> position st < position s' \<and> position st < length (input st)"
    and t: "tokenAt ?rest tok (drop (position s') (input st))"
    using nextToken_spec[of st] by blast
  have e: "tok = token" "s' = st'" using n assms(1) by simp_all
  have ne: "?rest \<noteq> []"
    using tokenAt_EOF[OF t] assms(2) e by simp
  show "input st' = input st" using i e by simp
  show "position st < position st'" "position st < length (input st)"
    using c ne e by simp_all
  then show "position st' \<le> length (input st)" using b e by simp
qed

lemma nextToken_EOF_value:
  assumes "nextToken st = Inr (token, st')" and "tok_type token = EOF"
  shows "tok_value token = []"
proof -
  let ?rest = "dropWhile isSpaceChar (drop (position st) (input st))"
  obtain tok s' where n: "nextToken st = Inr (tok, s')"
    and t: "tokenAt ?rest tok (drop (position s') (input st))"
    using nextToken_spec[of st] by blast
  have e: "tok = token" using n assms(1) by simp
  have r: "?rest = []" using tokenAt_EOF[OF t] assms(2) e by simp
  have "tokenAt [] token (drop (position s') (input st))"
    using t unfolding r e .
  then show ?thesis by (simp add: tokenAt_def)
qed

function tokenize_loop :: "Token list \<Rightarrow> Tokenizer \<Rightarrow> error + Token list" where
  "tokenize_loop tokens st =
     (case nextToken st of
        Inl e \<Rightarrow> Inl e
      | Inr (token, st') \<Rightarrow>
          if tok_type token \<noteq> EOF then tokenize_loop (tokens @ [token]) st'
          else Inr (tokens @ [token]))"
  by pat_completeness auto
termination
proof (relation "measure (\<lambda>(tokens, st). length (input st) - position st)")
  show "wf (measure (\<lambda>(tokens, st). length (input st) - position st))"
    by simp
next
  fix tokens :: "Token list" and st x2 token st'
  assume n: "nextToken st = Inr x2" and x: "(token, st') = x2" and t: "tok_type token \<noteq> EOF"
  have nt: "nextToken st = Inr (token, st')"
    using n x by simp
  note p = nextToken_progress[OF nt t]
  show "((tokens @ [token], st'), (tokens, st))
        \<in> measure (\<lambda>(tokens, st). length (input st) - position st)"
    using p by simp
qed

declare tokenize_loop.simps [simp del]

definition tokenize :: "string \<Rightarrow> error + Token list" where
  "tokenize inp = tokenize_loop [] \<lparr>input = inp, position = 0, line = 1, column = 1\<rparr>"

section \<open>Abstract syntax tree\<close>

text \<open>
  The four node shapes of \<^verbatim>\<open>ast/interface.ts\<close>. The factory functions \<^verbatim>\<open>identifier\<close>,
  \<^verbatim>\<open>and\<close>, \<^verbatim>\<open>or\<close> and \<^verbatim>\<open>not\<close> build exactly these nodes and check nothing, so the
  constructors stand for them.
\<close>

datatype Expression =
    IdentifierExpression string
  | AndExpression Expression Expression
  | OrExpression Expression Expression
  | NotExpression Expression

section \<open>Parser\<close>

text \<open>
  The parser object: the token array and the index of the current token. Every method
  takes the parser and returns its result together with the parser as the method leaves
  it; a thrown error is the \<open>Inl\<close> result, and the cursor stays where the throw found it.
\<close>

record Parser =
  tokens :: "Token list"
  current :: nat

text \<open>
  \<^verbatim>\<open>ParseError.fromToken\<close> reads the position of the token, so it raises a TypeError on
  \<^verbatim>\<open>undefined\<close>; \<^verbatim>\<open>actual\<close> is the value of the token, or the name of its type when the
  value is empty.
\<close>

definition typeName :: "TokenType \<Rightarrow> string" where
  "typeName ty =
     (case ty of
        IDENTIFIER \<Rightarrow> ''IDENTIFIER'' | AND \<Rightarrow> ''AND'' | OR \<Rightarrow> ''OR'' | NOT \<Rightarrow> ''NOT''
      | LEFT_PAREN \<Rightarrow> ''LEFT_PAREN'' | RIGHT_PAREN \<Rightarrow> ''RIGHT_PAREN'' | EOF \<Rightarrow> ''EOF'')"

definition fromToken :: "string \<Rightarrow> Token option \<Rightarrow> string \<Rightarrow> error" where
  "fromToken message token expected =
     (case token of
        None \<Rightarrow> TypeError
      | Some t \<Rightarrow>
          ParseError message (tok_position t) (tok_line t) (tok_column t) expected
            (if tok_value t = [] then typeName (tok_type t) else tok_value t))"

text \<open>
  \<^verbatim>\<open>#peek\<close> indexes the array without a check: out of range it returns \<^verbatim>\<open>undefined\<close>, here
  \<open>None\<close>. \<^verbatim>\<open>#hasReachedEOF\<close>, \<^verbatim>\<open>#check\<close> and \<^verbatim>\<open>#primary\<close> read the type of that result,
  which raises a TypeError on \<^verbatim>\<open>undefined\<close>. The methods \<^verbatim>\<open>#peek\<close> and \<^verbatim>\<open>#advance\<close> carry
  the prefix \<open>Parser_\<close>, the tokenizer having methods of the same names.
\<close>

definition Parser_peek :: "Parser \<Rightarrow> Token option" where
  "Parser_peek p = (if current p < length (tokens p) then Some (tokens p ! current p) else None)"

definition Parser_advance :: "Parser \<Rightarrow> Parser" where
  "Parser_advance p = (if current p < length (tokens p) then p\<lparr>current := current p + 1\<rparr> else p)"

definition hasReachedEOF :: "Parser \<Rightarrow> error + bool" where
  "hasReachedEOF p =
     (case Parser_peek p of None \<Rightarrow> Inl TypeError | Some token \<Rightarrow> Inr (tok_type token = EOF))"

definition check :: "TokenType \<Rightarrow> Parser \<Rightarrow> error + bool" where
  "check ty p =
     (case hasReachedEOF p of
        Inl e \<Rightarrow> Inl e
      | Inr True \<Rightarrow> Inr False
      | Inr False \<Rightarrow>
          (case Parser_peek p of None \<Rightarrow> Inl TypeError | Some token \<Rightarrow> Inr (tok_type token = ty)))"

fun matchesAny :: "TokenType list \<Rightarrow> Parser \<Rightarrow> (error + bool) \<times> Parser" where
  "matchesAny [] p = (Inr False, p)"
| "matchesAny (ty # types) p =
     (case check ty p of
        Inl e \<Rightarrow> (Inl e, p)
      | Inr True \<Rightarrow> (Inr True, Parser_advance p)
      | Inr False \<Rightarrow> matchesAny types p)"

text \<open>
  \<^verbatim>\<open>#consume\<close>. Where \<^verbatim>\<open>#check\<close> has succeeded the current token exists, so the \<open>None\<close>
  branch below it is never taken (lemma \<open>check_cases\<close>).
\<close>

definition consume :: "TokenType \<Rightarrow> string \<Rightarrow> Parser \<Rightarrow> (error + Token) \<times> Parser" where
  "consume ty message p =
     (case check ty p of
        Inl e \<Rightarrow> (Inl e, p)
      | Inr True \<Rightarrow>
          (case Parser_peek p of
             None \<Rightarrow> (Inl TypeError, Parser_advance p)
           | Some token \<Rightarrow> (Inr token, Parser_advance p))
      | Inr False \<Rightarrow> (Inl (fromToken message (Parser_peek p) (typeName ty)), p))"

text \<open>The four errors that end \<^verbatim>\<open>#primary\<close>, in the order of the source.\<close>

definition primary_error :: "Token \<Rightarrow> error" where
  "primary_error token =
     (if tok_type token = EOF then
        fromToken (''Unexpected end of input: expected identifier or '' @ [CHR 0x22] @ ''('' @ [CHR 0x22])
          (Some token) (''identifier or '' @ [CHR 0x22] @ ''('' @ [CHR 0x22])
      else if tok_type token = RIGHT_PAREN then
        fromToken (''Unexpected '' @ [CHR 0x27] @ '')'' @ [CHR 0x27] @ '': missing opening parenthesis or expression'')
          (Some token) (''identifier or '' @ [CHR 0x22] @ ''('' @ [CHR 0x22])
      else if tok_type token = AND \<or> tok_type token = OR then
        fromToken (''Unexpected '' @ [CHR 0x27] @ tok_value token @ [CHR 0x27] @ '': missing left operand'')
          (Some token) (''identifier or '' @ [CHR 0x22] @ ''('' @ [CHR 0x22])
      else
        fromToken (''Unexpected token '' @ [CHR 0x27] @ tok_value token @ [CHR 0x27])
          (Some token) (''identifier or '' @ [CHR 0x22] @ ''('' @ [CHR 0x22]))"

text \<open>
  The grammar rules. The while loops of \<^verbatim>\<open>#orExpression\<close> and \<^verbatim>\<open>#andExpression\<close> are the
  functions \<open>orExpression_loop\<close> and \<open>andExpression_loop\<close>, which carry the variable
  \<^verbatim>\<open>left\<close>.
\<close>

function expression :: "Parser \<Rightarrow> (error + Expression) \<times> Parser"
  and orExpression :: "Parser \<Rightarrow> (error + Expression) \<times> Parser"
  and orExpression_loop :: "Expression \<Rightarrow> Parser \<Rightarrow> (error + Expression) \<times> Parser"
  and andExpression :: "Parser \<Rightarrow> (error + Expression) \<times> Parser"
  and andExpression_loop :: "Expression \<Rightarrow> Parser \<Rightarrow> (error + Expression) \<times> Parser"
  and notExpression :: "Parser \<Rightarrow> (error + Expression) \<times> Parser"
  and primary :: "Parser \<Rightarrow> (error + Expression) \<times> Parser"
where
  "expression p = orExpression p"
| "orExpression p =
     (case andExpression p of
        (Inl e, p1) \<Rightarrow> (Inl e, p1)
      | (Inr left, p1) \<Rightarrow> orExpression_loop left p1)"
| "orExpression_loop left p =
     (case matchesAny [OR] p of
        (Inl e, p1) \<Rightarrow> (Inl e, p1)
      | (Inr False, p1) \<Rightarrow> (Inr left, p1)
      | (Inr True, p1) \<Rightarrow>
          (case andExpression p1 of
             (Inl e, p2) \<Rightarrow> (Inl e, p2)
           | (Inr right, p2) \<Rightarrow> orExpression_loop (OrExpression left right) p2))"
| "andExpression p =
     (case notExpression p of
        (Inl e, p1) \<Rightarrow> (Inl e, p1)
      | (Inr left, p1) \<Rightarrow> andExpression_loop left p1)"
| "andExpression_loop left p =
     (case matchesAny [AND] p of
        (Inl e, p1) \<Rightarrow> (Inl e, p1)
      | (Inr False, p1) \<Rightarrow> (Inr left, p1)
      | (Inr True, p1) \<Rightarrow>
          (case notExpression p1 of
             (Inl e, p2) \<Rightarrow> (Inl e, p2)
           | (Inr right, p2) \<Rightarrow> andExpression_loop (AndExpression left right) p2))"
| "notExpression p =
     (case matchesAny [NOT] p of
        (Inl e, p1) \<Rightarrow> (Inl e, p1)
      | (Inr True, p1) \<Rightarrow>
          (case notExpression p1 of
             (Inl e, p2) \<Rightarrow> (Inl e, p2)
           | (Inr expr, p2) \<Rightarrow> (Inr (NotExpression expr), p2))
      | (Inr False, p1) \<Rightarrow> primary p1)"
| "primary p =
     (case matchesAny [LEFT_PAREN] p of
        (Inl e, p1) \<Rightarrow> (Inl e, p1)
      | (Inr True, p1) \<Rightarrow>
          (case expression p1 of
             (Inl e, p2) \<Rightarrow> (Inl e, p2)
           | (Inr expr, p2) \<Rightarrow>
               (case consume RIGHT_PAREN (''Expected '' @ [CHR 0x27] @ '')'' @ [CHR 0x27] @ '' after expression'') p2 of
                  (Inl e, p3) \<Rightarrow> (Inl e, p3)
                | (Inr token, p3) \<Rightarrow> (Inr expr, p3)))
      | (Inr False, p1) \<Rightarrow>
          (case check IDENTIFIER p1 of
             Inl e \<Rightarrow> (Inl e, p1)
           | Inr True \<Rightarrow>
               (case consume IDENTIFIER ''Expecte identifier'' p1 of
                  (Inl e, p2) \<Rightarrow> (Inl e, p2)
                | (Inr token, p2) \<Rightarrow> (Inr (IdentifierExpression (tok_value token)), p2))
           | Inr False \<Rightarrow>
               (case Parser_peek p1 of
                  None \<Rightarrow> (Inl TypeError, p1)
                | Some token \<Rightarrow> (Inl (primary_error token), p1))))"
  by pat_completeness auto

subsection \<open>The cursor of the parser\<close>

text \<open>
  The rules call each other on the parser that an earlier call has returned, so their
  termination rests on what a call does to the cursor. \<open>follows p p'\<close> says that \<open>p'\<close>
  has the tokens of \<open>p\<close>, a cursor that is not smaller, and that the tokens passed were
  in the array and not of type EOF. \<open>inBounds p\<close> says that the cursor is on a token of
  an array that ends with EOF. \<open>ok p res\<close> says of a result \<open>res\<close> of a method called
  on \<open>p\<close> that its parser follows \<open>p\<close>, stays in bounds when \<open>p\<close> is, and that it is
  then no TypeError. It is proved first for the arguments on which the rules terminate,
  then the rules are shown to terminate everywhere.
\<close>

abbreviation parser_dom where
  "parser_dom \<equiv> expression_orExpression_orExpression_loop_andExpression_andExpression_loop_notExpression_primary_dom"

definition inBounds :: "Parser \<Rightarrow> bool" where
  "inBounds p \<longleftrightarrow> current p < length (tokens p) \<and> tok_type (last (tokens p)) = EOF"

definition follows :: "Parser \<Rightarrow> Parser \<Rightarrow> bool" where
  "follows p p' \<longleftrightarrow>
     tokens p' = tokens p \<and> current p \<le> current p' \<and>
     (\<forall>i. current p \<le> i \<and> i < current p' \<longrightarrow> i < length (tokens p) \<and> tok_type (tokens p ! i) \<noteq> EOF) \<and>
     (inBounds p \<longrightarrow> inBounds p')"

definition ok :: "Parser \<Rightarrow> (error + 'a) \<times> Parser \<Rightarrow> bool" where
  "ok p res \<longleftrightarrow> follows p (snd res) \<and> (inBounds p \<longrightarrow> fst res \<noteq> Inl TypeError)"

lemma follows_refl: "follows p p"
  by (auto simp: follows_def)

lemma follows_trans:
  assumes "follows p p1" and "follows p1 p2"
  shows "follows p p2"
proof -
  have t: "tokens p1 = tokens p" "tokens p2 = tokens p"
    using assms by (simp_all add: follows_def)
  have le: "current p \<le> current p1" "current p1 \<le> current p2"
    using assms by (simp_all add: follows_def)
  have s1: "i < length (tokens p) \<and> tok_type (tokens p ! i) \<noteq> EOF"
    if "current p \<le> i" "i < current p1" for i
    using assms(1) that by (simp add: follows_def)
  have s2: "i < length (tokens p) \<and> tok_type (tokens p ! i) \<noteq> EOF"
    if "current p1 \<le> i" "i < current p2" for i
    using assms(2) that t by (simp add: follows_def)
  have s: "i < length (tokens p) \<and> tok_type (tokens p ! i) \<noteq> EOF"
    if "current p \<le> i" "i < current p2" for i
  proof (cases "i < current p1")
    case True
    then show ?thesis using s1 that by simp
  next
    case False
    then show ?thesis using s2 that by simp
  qed
  have b: "inBounds p \<longrightarrow> inBounds p2"
    using assms by (simp add: follows_def)
  show ?thesis
    unfolding follows_def using t le s b by simp
qed

lemma ok_chain:
  assumes "ok p (r1, p1)" and "ok p1 res"
  shows "ok p res"
proof -
  have f: "follows p p1" "follows p1 (snd res)"
    using assms by (simp_all add: ok_def)
  have "inBounds p \<longrightarrow> inBounds p1"
    using f(1) by (simp add: follows_def)
  then show ?thesis
    using follows_trans[OF f] assms(2) by (simp add: ok_def)
qed

lemma ok_result: "ok p (r, p1) \<Longrightarrow> r' \<noteq> Inl TypeError \<Longrightarrow> ok p (r', p1)"
  by (simp add: ok_def)

lemma ok_Inl:
  "ok p ((Inl e, p1) :: (error + 'a) \<times> Parser) \<Longrightarrow> ok p ((Inl e, p1) :: (error + 'b) \<times> Parser)"
  by (simp add: ok_def)

lemma follows_advance:
  assumes "Parser_peek p = Some token" and "tok_type token \<noteq> EOF"
  shows "follows p (Parser_advance p)" and "current p < current (Parser_advance p)"
    and "current p < length (tokens p)"
proof -
  have lt: "current p < length (tokens p)" and tk: "tokens p ! current p = token"
    using assms(1) by (auto simp: Parser_peek_def split: if_splits)
  show "current p < length (tokens p)" by (rule lt)
  show "current p < current (Parser_advance p)"
    using lt by (simp add: Parser_advance_def)
  have "Suc (current p) < length (tokens p)" if "tok_type (last (tokens p)) = EOF"
  proof (rule ccontr)
    assume "\<not> Suc (current p) < length (tokens p)"
    then have "current p = length (tokens p) - 1" using lt by simp
    then have "tokens p ! current p = last (tokens p)"
      using lt by (metis last_conv_nth length_greater_0_conv less_nat_zero_code list.size(3))
    then show False using that tk assms(2) by simp
  qed
  then have b: "inBounds p \<longrightarrow> inBounds (p\<lparr>current := Suc (current p)\<rparr>)"
    by (simp add: inBounds_def)
  have s: "i < length (tokens p) \<and> tok_type (tokens p ! i) \<noteq> EOF"
    if "current p \<le> i" "i < Suc (current p)" for i
  proof -
    have "i = current p" using that by simp
    then show ?thesis using lt tk assms(2) by simp
  qed
  have a: "Parser_advance p = p\<lparr>current := Suc (current p)\<rparr>"
    using lt by (simp add: Parser_advance_def)
  show "follows p (Parser_advance p)"
    unfolding a follows_def using s b by simp
qed

lemma check_cases:
  "check ty p = Inl e \<Longrightarrow> e = TypeError \<and> Parser_peek p = None"
  "check ty p = Inr True \<Longrightarrow> \<exists>token. Parser_peek p = Some token \<and> tok_type token = ty \<and> ty \<noteq> EOF"
  "check ty p = Inr False \<Longrightarrow> \<exists>token. Parser_peek p = Some token"
proof -
  show "check ty p = Inl e \<Longrightarrow> e = TypeError \<and> Parser_peek p = None"
    by (cases "Parser_peek p") (auto simp: check_def hasReachedEOF_def split: bool.splits)
  show "check ty p = Inr True \<Longrightarrow> \<exists>token. Parser_peek p = Some token \<and> tok_type token = ty \<and> ty \<noteq> EOF"
  proof (cases "Parser_peek p")
    case None
    assume "check ty p = Inr True"
    then show ?thesis using None by (simp add: check_def hasReachedEOF_def)
  next
    case (Some token)
    assume c: "check ty p = Inr True"
    show ?thesis
    proof (cases "tok_type token = EOF")
      case True
      then show ?thesis using c Some by (simp add: check_def hasReachedEOF_def)
    next
      case False
      then show ?thesis using c Some by (auto simp: check_def hasReachedEOF_def)
    qed
  qed
  show "check ty p = Inr False \<Longrightarrow> \<exists>token. Parser_peek p = Some token"
    by (cases "Parser_peek p") (auto simp: check_def hasReachedEOF_def split: bool.splits)
qed

lemma inBounds_peek: "inBounds p \<Longrightarrow> \<exists>token. Parser_peek p = Some token"
  by (simp add: inBounds_def Parser_peek_def)

lemma matchesAny_ok:
  assumes "matchesAny [ty] p = (r, p1)"
  shows "ok p (r, p1)"
    and "r = Inr True \<Longrightarrow> current p < current p1 \<and> current p < length (tokens p) \<and> tokens p1 = tokens p"
    and "r = Inr False \<Longrightarrow> p1 = p"
proof -
  show "ok p (r, p1)"
  proof (cases "check ty p")
    case (Inl e)
    then show ?thesis
      using assms check_cases(1)[OF Inl] inBounds_peek[of p]
      by (auto simp: ok_def follows_refl)
  next
    case (Inr b)
    show ?thesis
    proof (cases b)
      case True
      then obtain token where "Parser_peek p = Some token" "tok_type token \<noteq> EOF"
        using check_cases(2)[of ty p] Inr by auto
      from follows_advance(1)[OF this] show ?thesis
        using assms Inr True by (auto simp: ok_def)
    next
      case False
      then show ?thesis using assms Inr by (auto simp: ok_def follows_refl)
    qed
  qed
  show "current p < current p1 \<and> current p < length (tokens p) \<and> tokens p1 = tokens p" if "r = Inr True"
  proof -
    have c: "check ty p = Inr True" and p1: "p1 = Parser_advance p"
      using assms that by (auto split: sum.splits bool.splits)
    then obtain token where "Parser_peek p = Some token" "tok_type token \<noteq> EOF"
      using check_cases(2)[of ty p] by auto
    from follows_advance[OF this] show ?thesis
      using p1 by (simp add: follows_def)
  qed
  show "p1 = p" if "r = Inr False"
    using assms that by (auto split: sum.splits bool.splits)
qed

lemma consume_ok: "ok p (consume ty message p)"
proof (cases "check ty p")
  case (Inl e)
  then show ?thesis
    using check_cases(1)[OF Inl] inBounds_peek[of p]
    by (auto simp: consume_def ok_def follows_refl)
next
  case (Inr b)
  show ?thesis
  proof (cases b)
    case True
    then obtain token where t: "Parser_peek p = Some token" "tok_type token \<noteq> EOF"
      using check_cases(2)[of ty p] Inr by auto
    from follows_advance(1)[OF this] show ?thesis
      using Inr True t by (auto simp: consume_def ok_def)
  next
    case False
    then obtain token where t: "Parser_peek p = Some token"
      using check_cases(3)[of ty p] Inr by auto
    then show ?thesis
      using Inr False by (auto simp: consume_def ok_def follows_refl fromToken_def)
  qed
qed

lemma primary_error_not_TypeError: "primary_error token \<noteq> TypeError"
  by (simp add: primary_error_def fromToken_def)

lemma parser_ok_dom:
  shows "parser_dom (Inl (Inl p1)) \<Longrightarrow> ok p1 (expression p1)"
    and "parser_dom (Inl (Inr (Inl p2))) \<Longrightarrow> ok p2 (orExpression p2)"
    and "parser_dom (Inl (Inr (Inr (l3, p3)))) \<Longrightarrow> ok p3 (orExpression_loop l3 p3)"
    and "parser_dom (Inr (Inl (Inl p4))) \<Longrightarrow> ok p4 (andExpression p4)"
    and "parser_dom (Inr (Inl (Inr (l5, p5)))) \<Longrightarrow> ok p5 (andExpression_loop l5 p5)"
    and "parser_dom (Inr (Inr (Inl p6))) \<Longrightarrow> ok p6 (notExpression p6)"
    and "parser_dom (Inr (Inr (Inr p7))) \<Longrightarrow> ok p7 (primary p7)"
proof (induction p1 and p2 and l3 p3 and p4 and l5 p5 and p6 and p7
    rule: expression_orExpression_orExpression_loop_andExpression_andExpression_loop_notExpression_primary.pinduct)
  case (1 p)
  then show ?case by (simp add: expression.psimps)
next
  case (2 p)
  obtain r1 q1 where a: "andExpression p = (r1, q1)" by (cases "andExpression p") auto
  show ?case
  proof (cases r1)
    case (Inl e)
    then show ?thesis using 2(1,2) a by (simp add: orExpression.psimps)
  next
    case (Inr left)
    have "ok q1 (orExpression_loop left q1)"
      using 2(3)[OF a[symmetric] Inr] .
    then have "ok p (orExpression_loop left q1)"
      by (rule ok_chain[OF 2(2)[unfolded a]])
    then show ?thesis using 2(1) a Inr by (simp add: orExpression.psimps)
  qed
next
  case (3 left p)
  obtain r1 q1 where m: "matchesAny [OR] p = (r1, q1)" by (cases "matchesAny [OR] p") auto
  note mo = matchesAny_ok[OF m]
  show ?case
  proof (cases r1)
    case (Inl e)
    then show ?thesis using 3(1) m mo(1) by (simp add: orExpression_loop.psimps ok_def)
  next
    case (Inr b)
    show ?thesis
    proof (cases b)
      case False
      have bF: "b = False" using False by simp
      then show ?thesis
        using 3(1) m Inr mo(1) by (simp add: orExpression_loop.psimps ok_def)
    next
      case True
      have bT: "b = True" using True by simp
      obtain r2 q2 where a: "andExpression q1 = (r2, q2)" by (cases "andExpression q1") auto
      have oa: "ok q1 (r2, q2)"
        using 3(2)[OF m[symmetric] Inr bT] a by simp
      show ?thesis
      proof (cases r2)
        case (Inl e)
        have "ok p (r2, q2)" using ok_chain[OF mo(1) oa] .
        then show ?thesis
          using 3(1) m Inr True a Inl by (simp add: orExpression_loop.psimps)
      next
        case right: (Inr right)
        have "ok q2 (orExpression_loop (OrExpression left right) q2)"
          using 3(3)[OF m[symmetric] Inr bT a[symmetric] right] .
        then have "ok p (orExpression_loop (OrExpression left right) q2)"
          by (rule ok_chain[OF ok_chain[OF mo(1) oa]])
        then show ?thesis
          using 3(1) m Inr True a right by (simp add: orExpression_loop.psimps)
      qed
    qed
  qed
next
  case (4 p)
  obtain r1 q1 where a: "notExpression p = (r1, q1)" by (cases "notExpression p") auto
  show ?case
  proof (cases r1)
    case (Inl e)
    then show ?thesis using 4(1,2) a by (simp add: andExpression.psimps)
  next
    case (Inr left)
    have "ok q1 (andExpression_loop left q1)"
      using 4(3)[OF a[symmetric] Inr] .
    then have "ok p (andExpression_loop left q1)"
      by (rule ok_chain[OF 4(2)[unfolded a]])
    then show ?thesis using 4(1) a Inr by (simp add: andExpression.psimps)
  qed
next
  case (5 left p)
  obtain r1 q1 where m: "matchesAny [AND] p = (r1, q1)" by (cases "matchesAny [AND] p") auto
  note mo = matchesAny_ok[OF m]
  show ?case
  proof (cases r1)
    case (Inl e)
    then show ?thesis using 5(1) m mo(1) by (simp add: andExpression_loop.psimps ok_def)
  next
    case (Inr b)
    show ?thesis
    proof (cases b)
      case False
      have bF: "b = False" using False by simp
      then show ?thesis
        using 5(1) m Inr mo(1) by (simp add: andExpression_loop.psimps ok_def)
    next
      case True
      have bT: "b = True" using True by simp
      obtain r2 q2 where a: "notExpression q1 = (r2, q2)" by (cases "notExpression q1") auto
      have oa: "ok q1 (r2, q2)"
        using 5(2)[OF m[symmetric] Inr bT] a by simp
      show ?thesis
      proof (cases r2)
        case (Inl e)
        have "ok p (r2, q2)" using ok_chain[OF mo(1) oa] .
        then show ?thesis
          using 5(1) m Inr True a Inl by (simp add: andExpression_loop.psimps)
      next
        case right: (Inr right)
        have "ok q2 (andExpression_loop (AndExpression left right) q2)"
          using 5(3)[OF m[symmetric] Inr bT a[symmetric] right] .
        then have "ok p (andExpression_loop (AndExpression left right) q2)"
          by (rule ok_chain[OF ok_chain[OF mo(1) oa]])
        then show ?thesis
          using 5(1) m Inr True a right by (simp add: andExpression_loop.psimps)
      qed
    qed
  qed
next
  case (6 p)
  obtain r1 q1 where m: "matchesAny [NOT] p = (r1, q1)" by (cases "matchesAny [NOT] p") auto
  note mo = matchesAny_ok[OF m]
  show ?case
  proof (cases r1)
    case (Inl e)
    then show ?thesis using 6(1) m mo(1) by (simp add: notExpression.psimps ok_def)
  next
    case (Inr b)
    show ?thesis
    proof (cases b)
      case True
      have bT: "b = True" using True by simp
      obtain r2 q2 where a: "notExpression q1 = (r2, q2)" by (cases "notExpression q1") auto
      have oa: "ok q1 (r2, q2)"
        using 6(2)[OF m[symmetric] Inr bT] a by simp
      have o: "ok p (r2, q2)" using ok_chain[OF mo(1) oa] .
      show ?thesis
      proof (cases r2)
        case (Inl e)
        then show ?thesis
          using 6(1) m Inr True a o by (simp add: notExpression.psimps)
      next
        case e: (Inr expr)
        have "ok p (Inr (NotExpression expr), q2)"
          using o by (rule ok_result) simp
        then show ?thesis
          using 6(1) m Inr True a e by (simp add: notExpression.psimps)
      qed
    next
      case False
      have bF: "b = False" using False by simp
      have "ok q1 (primary q1)"
        using 6(3)[OF m[symmetric] Inr bF] .
      then have "ok p (primary q1)"
        by (rule ok_chain[OF mo(1)])
      then show ?thesis
        using 6(1) m Inr False by (simp add: notExpression.psimps)
    qed
  qed
next
  case (7 p)
  obtain r1 q1 where m: "matchesAny [LEFT_PAREN] p = (r1, q1)"
    by (cases "matchesAny [LEFT_PAREN] p") auto
  note mo = matchesAny_ok[OF m]
  show ?case
  proof (cases r1)
    case (Inl e)
    then show ?thesis using 7(1) m mo(1) by (simp add: primary.psimps ok_def)
  next
    case (Inr b)
    show ?thesis
    proof (cases b)
      case True
      have bT: "b = True" using True by simp
      obtain r2 q2 where a: "expression q1 = (r2, q2)" by (cases "expression q1") auto
      have oa: "ok q1 (r2, q2)"
        using 7(2)[OF m[symmetric] Inr bT] a by simp
      have o: "ok p (r2, q2)" using ok_chain[OF mo(1) oa] .
      show ?thesis
      proof (cases r2)
        case (Inl e)
        then show ?thesis
          using 7(1) m Inr True a o by (simp add: primary.psimps)
      next
        case e: (Inr expr)
        let ?msg = "''Expected '' @ [CHR 0x27] @ '')'' @ [CHR 0x27] @ '' after expression''"
        obtain r3 q3 where c: "consume RIGHT_PAREN ?msg q2 = (r3, q3)"
          by (cases "consume RIGHT_PAREN ?msg q2") auto
        have "ok q2 (r3, q3)" using consume_ok[of q2 RIGHT_PAREN ?msg] c by simp
        then have o3: "ok p (r3, q3)" by (rule ok_chain[OF o])
        show ?thesis
        proof (cases r3)
          case (Inl e3)
          then show ?thesis
            using 7(1) m Inr True a e c o3 by (simp add: primary.psimps ok_def)
        next
          case t: (Inr token)
          have "ok p (Inr expr, q3)" using o3 by (rule ok_result) simp
          then show ?thesis
            using 7(1) m Inr True a e c t by (simp add: primary.psimps)
        qed
      qed
    next
      case False
      have bF: "b = False" using False by simp
      have q1: "q1 = p" using mo(3) Inr False by simp
      show ?thesis
      proof (cases "check IDENTIFIER p")
        case (Inl e)
        then show ?thesis
          using 7(1) m Inr False q1 check_cases(1)[OF Inl] inBounds_peek[of p]
          by (auto simp: primary.psimps ok_def follows_refl)
      next
        case c: (Inr b2)
        show ?thesis
        proof (cases b2)
          case True

          obtain r2 q2 where cs: "consume IDENTIFIER ''Expecte identifier'' p = (r2, q2)"
            by (cases "consume IDENTIFIER ''Expecte identifier'' p") auto
          have o2: "ok p (r2, q2)"
            using consume_ok[of p IDENTIFIER "''Expecte identifier''"] cs by simp
          show ?thesis
          proof (cases r2)
            case (Inl e)
            then show ?thesis
              using 7(1) m Inr False q1 c True cs o2 by (simp add: primary.psimps ok_def)
          next
            case t: (Inr token)
            have "ok p (Inr (IdentifierExpression (tok_value token)), q2)"
              using o2 by (rule ok_result) simp
            then show ?thesis
              using 7(1) m Inr False q1 c True cs t by (simp add: primary.psimps)
          qed
        next
          case f2: False
          have bF2: "b2 = False" using f2 by simp
          then obtain token where t: "Parser_peek p = Some token"
            using check_cases(3)[of IDENTIFIER p] c by auto
          then show ?thesis
            using 7(1) m Inr False q1 c f2 primary_error_not_TypeError
            by (simp add: primary.psimps ok_def follows_refl)
        qed
      qed
    qed
  qed
qed

lemma matchesAny_True_less:
  "(Inr True, y) = matchesAny [ty] p \<Longrightarrow>
     length (tokens y) - current y < length (tokens p) - current p"
  using matchesAny_ok(2)[of ty p "Inr True" y] by auto

lemma matchesAny_False_eq: "(Inr False, y) = matchesAny [ty] p \<Longrightarrow> y = p"
  using matchesAny_ok(3)[of ty p "Inr False" y] by auto

lemma ok_remaining:
  "ok p (r, y) \<Longrightarrow> length (tokens y) - current y \<le> length (tokens p) - current p"
  by (auto simp: ok_def follows_def)

lemma andExpression_dom_le:
  "parser_dom (Inr (Inl (Inl p))) \<Longrightarrow> (r, y) = andExpression p \<Longrightarrow>
     length (tokens y) - current y \<le> length (tokens p) - current p"
  using parser_ok_dom(4)[of p] ok_remaining[of p r y] by simp

lemma notExpression_dom_le:
  "parser_dom (Inr (Inr (Inl p))) \<Longrightarrow> (r, y) = notExpression p \<Longrightarrow>
     length (tokens y) - current y \<le> length (tokens p) - current p"
  using parser_ok_dom(6)[of p] ok_remaining[of p r y] by simp

lemma parser_dom_all: "All parser_dom"
  apply (relation "inv_image (less_than <*lex*> less_than)
     (\<lambda>x. case x of
        Inl (Inl p) \<Rightarrow> (length (tokens p) - current p, 6::nat)
      | Inl (Inr (Inl p)) \<Rightarrow> (length (tokens p) - current p, 5)
      | Inl (Inr (Inr (left, p))) \<Rightarrow> (length (tokens p) - current p, 4)
      | Inr (Inl (Inl p)) \<Rightarrow> (length (tokens p) - current p, 3)
      | Inr (Inl (Inr (left, p))) \<Rightarrow> (length (tokens p) - current p, 2)
      | Inr (Inr (Inl p)) \<Rightarrow> (length (tokens p) - current p, 1)
      | Inr (Inr (Inr p)) \<Rightarrow> (length (tokens p) - current p, 0))")
              apply (intro wf_inv_image wf_lex_prod wf_less_than)
             apply (auto simp del: matchesAny.simps
      dest!: matchesAny_True_less matchesAny_False_eq andExpression_dom_le notExpression_dom_le)
  done

termination expression
  by (rule parser_dom_all)

lemma parser_ok:
  shows "ok p (expression p)"
    and "ok p (orExpression p)"
    and "ok p (orExpression_loop left p)"
    and "ok p (andExpression p)"
    and "ok p (andExpression_loop left p)"
    and "ok p (notExpression p)"
    and "ok p (primary p)"
  using parser_ok_dom parser_dom_all by blast+


declare expression.simps [simp del] orExpression.simps [simp del] orExpression_loop.simps [simp del]
  andExpression.simps [simp del] andExpression_loop.simps [simp del] notExpression.simps [simp del]
  primary.simps [simp del]

text \<open>\<^verbatim>\<open>Parser.parse\<close>, and the exported \<^verbatim>\<open>parse\<close>, which tokenizes first.\<close>

definition Parser_parse :: "Parser \<Rightarrow> (error + Expression) \<times> Parser" where
  "Parser_parse p =
     (case hasReachedEOF p of
        Inl e \<Rightarrow> (Inl e, p)
      | Inr True \<Rightarrow>
          (Inl (fromToken ''Unexpected end of input: expected expression'' (Parser_peek p) ''expression''), p)
      | Inr False \<Rightarrow>
          (case expression p of
             (Inl e, p1) \<Rightarrow> (Inl e, p1)
           | (Inr expr, p1) \<Rightarrow>
               (case hasReachedEOF p1 of
                  Inl e \<Rightarrow> (Inl e, p1)
                | Inr False \<Rightarrow>
                    (case Parser_peek p1 of
                       None \<Rightarrow> (Inl TypeError, p1)
                     | Some token \<Rightarrow>
                         (Inl (fromToken (''Unexpected token '' @ [CHR 0x27] @ tok_value token @ [CHR 0x27])
                                 (Some token) ''end of expression''), p1))
                | Inr True \<Rightarrow> (Inr expr, p1))))"

definition parse :: "string \<Rightarrow> error + Expression" where
  "parse inp =
     (case tokenize inp of
        Inl e \<Rightarrow> Inl e
      | Inr ts \<Rightarrow> fst (Parser_parse \<lparr>tokens = ts, current = 0\<rparr>))"

section \<open>Evaluator\<close>

text \<open>
  \<^verbatim>\<open>#eval\<close> and the four methods it dispatches to. \<^verbatim>\<open>#evaluateIdentifier\<close> is
  \<^verbatim>\<open>entities.some\<close> with strict equality of strings; \<^verbatim>\<open>&&\<close> and \<^verbatim>\<open>||\<close> evaluate their right
  side only when the left side does not decide, which the conditionals keep.
\<close>

definition evaluateIdentifier :: "string \<Rightarrow> string list \<Rightarrow> bool" where
  "evaluateIdentifier pattern entities = list_ex (\<lambda>entity. pattern = entity) entities"

function eval :: "Expression \<Rightarrow> string list \<Rightarrow> bool"
  and evaluateAnd :: "Expression \<Rightarrow> Expression \<Rightarrow> string list \<Rightarrow> bool"
  and evaluateOr :: "Expression \<Rightarrow> Expression \<Rightarrow> string list \<Rightarrow> bool"
  and evaluateNot :: "Expression \<Rightarrow> string list \<Rightarrow> bool"
where
  "eval (IdentifierExpression pattern) entities = evaluateIdentifier pattern entities"
| "eval (AndExpression left right) entities = evaluateAnd left right entities"
| "eval (OrExpression left right) entities = evaluateOr left right entities"
| "eval (NotExpression expr) entities = evaluateNot expr entities"
| "evaluateAnd left right entities = (if eval left entities then eval right entities else False)"
| "evaluateOr left right entities = (if eval left entities then True else eval right entities)"
| "evaluateNot expr entities = (\<not> eval expr entities)"
  by pat_completeness auto
termination
  by (relation "measure (\<lambda>x. case x of
        Inl (Inl (e, S)) \<Rightarrow> 2 * size e
      | Inl (Inr (l, r, S)) \<Rightarrow> 2 * (size l + size r) + 1
      | Inr (Inl (l, r, S)) \<Rightarrow> 2 * (size l + size r) + 1
      | Inr (Inr (e, S)) \<Rightarrow> 2 * size e + 1)") auto

text \<open>
  The class \<^verbatim>\<open>ExpressionEvaluator\<close>: the private expression and the member \<^verbatim>\<open>evaluate\<close>, an
  arrow function bound to the instance. \<^verbatim>\<open>createEvaluator\<close> returns a new instance;
  \<^verbatim>\<open>evaluate\<close> builds one and calls its member.
\<close>

record ExpressionEvaluator =
  ev_expression :: Expression
  ev_evaluate :: "string list \<Rightarrow> bool"

definition new_ExpressionEvaluator :: "Expression \<Rightarrow> ExpressionEvaluator" where
  "new_ExpressionEvaluator expr =
     \<lparr>ev_expression = expr, ev_evaluate = (\<lambda>entities. eval expr entities)\<rparr>"

definition createEvaluator :: "Expression \<Rightarrow> ExpressionEvaluator" where
  "createEvaluator expr = new_ExpressionEvaluator expr"

definition evaluate :: "Expression \<Rightarrow> string list \<Rightarrow> bool" where
  "evaluate expr entities = ev_evaluate (new_ExpressionEvaluator expr) entities"

text \<open>
  The two kinds of value that the callers of the evaluator module hold, and the call of
  JavaScript: a function is applied, and calling any other value raises a TypeError.
\<close>

datatype js_value = JsFunction "string list \<Rightarrow> bool" | JsObject ExpressionEvaluator

definition js_call :: "js_value \<Rightarrow> string list \<Rightarrow> error + bool" where
  "js_call v args = (case v of JsFunction f \<Rightarrow> Inr (f args) | JsObject obj \<Rightarrow> Inl TypeError)"


section \<open>Properties\<close>

subsection \<open>Auxiliary facts\<close>

definition isEOF :: "Token \<Rightarrow> bool" where
  "isEOF t \<longleftrightarrow> tok_type t = EOF"

text \<open>
  Case-insensitive comparison in the words of the specification: two strings compare equal
  when they are equal after lower-casing both.
\<close>

definition equalsIgnoreCase :: "string \<Rightarrow> string \<Rightarrow> bool" where
  "equalsIgnoreCase s k \<longleftrightarrow> toLocaleLowerCase s = toLocaleLowerCase k"

text \<open>The type and the value of a token, the two fields that do not depend on the layout.\<close>

definition typeAndValue :: "Token \<Rightarrow> TokenType \<times> string" where
  "typeAndValue t = (tok_type t, tok_value t)"

lemma tokenize_loop_total: "\<exists>result. tokenize_loop acc st = Inr result"
proof (induction acc st rule: tokenize_loop.induct)
  case (1 acc st)
  obtain tok st' where n: "nextToken st = Inr (tok, st')"
    using nextToken_total by blast
  show ?case
  proof (cases "tok_type tok = EOF")
    case True
    then show ?thesis using n by (subst tokenize_loop.simps) simp
  next
    case False
    then show ?thesis
      using n "1.IH"[OF n refl False] by (subst tokenize_loop.simps) simp
  qed
qed

lemma tokenize_loop_shape:
  "tokenize_loop acc st = Inr result \<Longrightarrow>
     \<exists>new. result = acc @ new \<and> new \<noteq> [] \<and> tok_type (last new) = EOF \<and> tok_value (last new) = []
           \<and> filter isEOF (butlast new) = []"
proof (induction acc st arbitrary: result rule: tokenize_loop.induct)
  case (1 acc st)
  obtain tok st' where n: "nextToken st = Inr (tok, st')"
    using nextToken_total by blast
  show ?case
  proof (cases "tok_type tok = EOF")
    case True
    then have "result = acc @ [tok]"
      using n "1.prems" by (subst (asm) tokenize_loop.simps) simp
    then show ?thesis
      using True nextToken_EOF_value[OF n True] by simp
  next
    case False
    then have "tokenize_loop (acc @ [tok]) st' = Inr result"
      using n "1.prems" by (subst (asm) tokenize_loop.simps) simp
    from "1.IH"[OF n refl False this] obtain new where
      new: "result = (acc @ [tok]) @ new" "new \<noteq> []" "tok_type (last new) = EOF"
        "tok_value (last new) = []" "filter isEOF (butlast new) = []"
      by blast
    have "result = acc @ (tok # new)" using new(1) by simp
    moreover have "filter isEOF (butlast (tok # new)) = []"
      using new(2,5) False by (simp add: isEOF_def)
    ultimately show ?thesis using new(2,3,4) by (intro exI[of _ "tok # new"]) simp
  qed
qed

lemma tokenize_shape:
  "\<exists>ts. tokenize inp = Inr ts \<and> ts \<noteq> [] \<and> tok_type (last ts) = EOF \<and> tok_value (last ts) = []
     \<and> filter isEOF (butlast ts) = []"
proof -
  obtain ts where t: "tokenize inp = Inr ts"
    using tokenize_loop_total by (auto simp: tokenize_def)
  then obtain new where "ts = [] @ new" "new \<noteq> []" "tok_type (last new) = EOF"
      "tok_value (last new) = []" "filter isEOF (butlast new) = []"
    unfolding tokenize_def using tokenize_loop_shape by blast
  then show ?thesis using t by simp
qed

lemma toLowerChar_keyword_letters:
  "toLowerChar c = CHR ''a'' \<longleftrightarrow> c = CHR ''a'' \<or> c = CHR ''A''"
  "toLowerChar c = CHR ''n'' \<longleftrightarrow> c = CHR ''n'' \<or> c = CHR ''N''"
  "toLowerChar c = CHR ''d'' \<longleftrightarrow> c = CHR ''d'' \<or> c = CHR ''D''"
  "toLowerChar c = CHR ''o'' \<longleftrightarrow> c = CHR ''o'' \<or> c = CHR ''O''"
  "toLowerChar c = CHR ''r'' \<longleftrightarrow> c = CHR ''r'' \<or> c = CHR ''R''"
  "toLowerChar c = CHR ''t'' \<longleftrightarrow> c = CHR ''t'' \<or> c = CHR ''T''"
  by (simp_all add: toLowerChar_def upperLetters_def lowerLetters_def)

lemma toLocaleLowerCase_keywords:
  "toLocaleLowerCase ''and'' = ''and''" "toLocaleLowerCase ''or'' = ''or''"
  "toLocaleLowerCase ''not'' = ''not''"
  by (simp_all add: toLocaleLowerCase_def toLowerChar_def upperLetters_def lowerLetters_def)

lemma map_eq_three:
  "map f s = [x, y, z] \<longleftrightarrow> (\<exists>a b c. s = [a, b, c] \<and> f a = x \<and> f b = y \<and> f c = z)"
proof
  assume m: "map f s = [x, y, z]"
  then have "length s = Suc (Suc (Suc 0))"
    using length_map[of f s] by simp
  then obtain a b c where s: "s = [a, b, c]"
    by (auto simp: length_Suc_conv)
  then show "\<exists>a b c. s = [a, b, c] \<and> f a = x \<and> f b = y \<and> f c = z"
    using m by simp
next
  assume "\<exists>a b c. s = [a, b, c] \<and> f a = x \<and> f b = y \<and> f c = z"
  then show "map f s = [x, y, z]" by auto
qed

lemma map_eq_two:
  "map f s = [x, y] \<longleftrightarrow> (\<exists>a b. s = [a, b] \<and> f a = x \<and> f b = y)"
proof
  assume m: "map f s = [x, y]"
  then have "length s = Suc (Suc 0)"
    using length_map[of f s] by simp
  then obtain a b where s: "s = [a, b]"
    by (auto simp: length_Suc_conv)
  then show "\<exists>a b. s = [a, b] \<and> f a = x \<and> f b = y"
    using m by simp
next
  assume "\<exists>a b. s = [a, b] \<and> f a = x \<and> f b = y"
  then show "map f s = [x, y]" by auto
qed

text \<open>The spellings that compare case-insensitively equal to the three keywords.\<close>

lemma equalsIgnoreCase_and:
  "equalsIgnoreCase s ''and'' \<longleftrightarrow>
     (\<exists>a n d. s = [a, n, d] \<and> (a = CHR ''a'' \<or> a = CHR ''A'') \<and> (n = CHR ''n'' \<or> n = CHR ''N'')
        \<and> (d = CHR ''d'' \<or> d = CHR ''D''))"
  unfolding equalsIgnoreCase_def toLocaleLowerCase_keywords
  by (simp only: toLocaleLowerCase_def map_eq_three toLowerChar_keyword_letters)

lemma equalsIgnoreCase_or:
  "equalsIgnoreCase s ''or'' \<longleftrightarrow>
     (\<exists>a b. s = [a, b] \<and> (a = CHR ''o'' \<or> a = CHR ''O'') \<and> (b = CHR ''r'' \<or> b = CHR ''R''))"
  unfolding equalsIgnoreCase_def toLocaleLowerCase_keywords
  by (simp only: toLocaleLowerCase_def map_eq_two toLowerChar_keyword_letters)

lemma equalsIgnoreCase_not:
  "equalsIgnoreCase s ''not'' \<longleftrightarrow>
     (\<exists>n b t. s = [n, b, t] \<and> (n = CHR ''n'' \<or> n = CHR ''N'') \<and> (b = CHR ''o'' \<or> b = CHR ''O'')
        \<and> (t = CHR ''t'' \<or> t = CHR ''T''))"
  unfolding equalsIgnoreCase_def toLocaleLowerCase_keywords
  by (simp only: toLocaleLowerCase_def map_eq_three toLowerChar_keyword_letters)

lemma matchKeyword_equalsIgnoreCase:
  "matchKeyword s =
     (if equalsIgnoreCase s ''and'' then Some AND
      else if equalsIgnoreCase s ''or'' then Some OR
      else if equalsIgnoreCase s ''not'' then Some NOT
      else None)"
  unfolding matchKeyword_def equalsIgnoreCase_def toLocaleLowerCase_keywords
  by (simp add: Let_def)

lemma evaluate_eval: "evaluate expr entities = eval expr entities"
  by (simp add: evaluate_def new_ExpressionEvaluator_def)

lemma Parser_parse_ok: "ok p (Parser_parse p)"
proof (cases "Parser_peek p")
  case None
  then have "\<not> inBounds p"
    using inBounds_peek[of p] by auto
  then show ?thesis
    using None by (simp add: Parser_parse_def hasReachedEOF_def ok_def follows_refl)
next
  case (Some token)
  show ?thesis
  proof (cases "tok_type token = EOF")
    case True
    then show ?thesis
      using Some by (simp add: Parser_parse_def hasReachedEOF_def ok_def follows_refl fromToken_def)
  next
    case False
    obtain r1 q1 where e: "expression p = (r1, q1)"
      by (cases "expression p") auto
    have o: "ok p (r1, q1)"
      using parser_ok(1)[of p] e by simp
    show ?thesis
    proof (cases r1)
      case (Inl err)
      then show ?thesis
        using Some False e o by (simp add: Parser_parse_def hasReachedEOF_def ok_def)
    next
      case (Inr expr)
      show ?thesis
      proof (cases "Parser_peek q1")
        case none: None
        then have "\<not> inBounds q1"
          using inBounds_peek[of q1] by auto
        then have "\<not> inBounds p"
          using o by (auto simp: ok_def follows_def)
        then show ?thesis
          using Some False e Inr none o
          by (simp add: Parser_parse_def hasReachedEOF_def ok_def)
      next
        case some: (Some t1)
        then show ?thesis
          using Some False e Inr o
          by (cases "tok_type t1 = EOF")
             (simp_all add: Parser_parse_def hasReachedEOF_def ok_def fromToken_def)
      qed
    qed
  qed
qed

subsection \<open>Parser: precedence and associativity\<close>

text \<open>
  The grammar of the specification, read as a printer. An expression is written at one of
  three levels, that of \<^verbatim>\<open>or_expr\<close>, of \<^verbatim>\<open>and_expr\<close> and of \<^verbatim>\<open>not_expr\<close>, and gets parentheses
  exactly where the grammar needs them: an Or node below the level of \<^verbatim>\<open>or_expr\<close>, and an
  And node at the level of \<^verbatim>\<open>not_expr\<close>. The left operand of \<^verbatim>\<open>or\<close> and of \<^verbatim>\<open>and\<close> is
  written at the level of the operator and the right operand one level higher, which is
  left associativity; the operand of \<^verbatim>\<open>not\<close> is written at the level of \<^verbatim>\<open>not_expr\<close>.
\<close>

datatype level = OrLevel | AndLevel | NotLevel

definition paren :: "bool \<Rightarrow> (TokenType \<times> string) list \<Rightarrow> (TokenType \<times> string) list" where
  "paren b xs = (if b then (LEFT_PAREN, ''('') # xs @ [(RIGHT_PAREN, '')'')] else xs)"

fun render :: "level \<Rightarrow> Expression \<Rightarrow> (TokenType \<times> string) list" where
  "render lvl (IdentifierExpression x) = [(IDENTIFIER, x)]"
| "render lvl (NotExpression e) = (NOT, ''not'') # render NotLevel e"
| "render lvl (AndExpression l r) =
     paren (lvl = NotLevel) (render AndLevel l @ [(AND, ''and'')] @ render NotLevel r)"
| "render lvl (OrExpression l r) =
     paren (lvl \<noteq> OrLevel) (render OrLevel l @ [(OR, ''or'')] @ render AndLevel r)"

text \<open>The types and values of the tokens from the cursor on, and the cursor moved by \<open>n\<close>.\<close>

definition remaining :: "Parser \<Rightarrow> (TokenType \<times> string) list" where
  "remaining p = map typeAndValue (drop (current p) (tokens p))"

definition skip :: "nat \<Rightarrow> Parser \<Rightarrow> Parser" where
  "skip n p = p\<lparr>current := current p + n\<rparr>"

lemma skip_skip: "skip m (skip n p) = skip (n + m) p"
  by (simp add: skip_def add.assoc)

lemma remaining_skip: "remaining p = xs @ rest \<Longrightarrow> remaining (skip (length xs) p) = rest"
proof -
  assume a: "remaining p = xs @ rest"
  have "remaining (skip (length xs) p) = drop (length xs) (remaining p)"
    by (simp add: remaining_def skip_def drop_map add.commute)
  then show ?thesis using a by simp
qed

lemma remaining_skip1: "remaining p = x # rest \<Longrightarrow> remaining (skip 1 p) = rest"
  using remaining_skip[of p "[x]" rest] by simp

lemma remaining_peek:
  assumes "remaining p = (ty, v) # rest"
  shows "\<exists>t. Parser_peek p = Some t \<and> tok_type t = ty \<and> tok_value t = v"
    and "Parser_advance p = skip 1 p"
proof -
  have ne: "drop (current p) (tokens p) \<noteq> []"
    using assms by (auto simp: remaining_def)
  then have lt: "current p < length (tokens p)"
    by simp
  then have "drop (current p) (tokens p) = tokens p ! current p # drop (Suc (current p)) (tokens p)"
    by (simp add: Cons_nth_drop_Suc)
  then have "typeAndValue (tokens p ! current p) = (ty, v)"
    using assms by (simp add: remaining_def)
  then show "\<exists>t. Parser_peek p = Some t \<and> tok_type t = ty \<and> tok_value t = v"
    using lt by (simp add: Parser_peek_def typeAndValue_def)
  show "Parser_advance p = skip 1 p"
    using lt by (simp add: Parser_advance_def skip_def)
qed

lemma check_remaining:
  assumes "remaining p = (ty', v) # rest"
  shows "check ty p = Inr (ty' = ty \<and> ty' \<noteq> EOF)"
proof -
  obtain t where "Parser_peek p = Some t" "tok_type t = ty'"
    using remaining_peek(1)[OF assms] by blast
  then show ?thesis
    by (cases "ty' = EOF") (auto simp: check_def hasReachedEOF_def)
qed

lemma matchesAny_yes:
  "remaining p = (ty, v) # rest \<Longrightarrow> ty \<noteq> EOF \<Longrightarrow> matchesAny [ty] p = (Inr True, skip 1 p)"
  using check_remaining[of p ty v rest ty] remaining_peek(2)[of p ty v rest] by simp

lemma matchesAny_no:
  "remaining p = (ty', v) # rest \<Longrightarrow> ty' \<noteq> ty \<Longrightarrow> matchesAny [ty] p = (Inr False, p)"
  using check_remaining[of p ty' v rest ty] by simp

lemma consume_yes:
  assumes "remaining p = (ty, v) # rest" and "ty \<noteq> EOF"
  shows "\<exists>t. consume ty message p = (Inr t, skip 1 p) \<and> tok_value t = v"
proof -
  obtain t where "Parser_peek p = Some t" "tok_value t = v"
    using remaining_peek(1)[OF assms(1)] by blast
  then show ?thesis
    using check_remaining[OF assms(1), of ty] remaining_peek(2)[OF assms(1)] assms(2)
    by (simp add: consume_def)
qed

text \<open>One round of each rule, by the token under the cursor.\<close>

lemma notExpression_NOT:
  "remaining p = (NOT, v) # rest \<Longrightarrow>
     notExpression p =
       (case notExpression (skip 1 p) of
          (Inl e, p2) \<Rightarrow> (Inl e, p2)
        | (Inr expr, p2) \<Rightarrow> (Inr (NotExpression expr), p2))"
  by (subst notExpression.simps) (simp add: matchesAny_yes del: matchesAny.simps)

lemma notExpression_other:
  "remaining p = (ty, v) # rest \<Longrightarrow> ty \<noteq> NOT \<Longrightarrow> notExpression p = primary p"
  by (subst notExpression.simps) (simp add: matchesAny_no del: matchesAny.simps)

lemma primary_IDENTIFIER:
  assumes "remaining p = (IDENTIFIER, x) # rest"
  shows "primary p = (Inr (IdentifierExpression x), skip 1 p)"
proof -
  obtain t where "consume IDENTIFIER ''Expecte identifier'' p = (Inr t, skip 1 p)" "tok_value t = x"
    using consume_yes[OF assms, of "''Expecte identifier''"] by auto
  then show ?thesis
    using matchesAny_no[OF assms, of LEFT_PAREN] check_remaining[OF assms, of IDENTIFIER]
    by (subst primary.simps) (simp del: matchesAny.simps)
qed

lemma primary_LEFT_PAREN:
  "remaining p = (LEFT_PAREN, v) # rest \<Longrightarrow>
     primary p =
       (case expression (skip 1 p) of
          (Inl e, p2) \<Rightarrow> (Inl e, p2)
        | (Inr expr, p2) \<Rightarrow>
            (case consume RIGHT_PAREN (''Expected '' @ [CHR 0x27] @ '')'' @ [CHR 0x27] @ '' after expression'') p2 of
               (Inl e, p3) \<Rightarrow> (Inl e, p3)
             | (Inr token, p3) \<Rightarrow> (Inr expr, p3)))"
  by (subst primary.simps) (simp add: matchesAny_yes del: matchesAny.simps)

lemma andExpression_loop_AND:
  "remaining p = (AND, v) # rest \<Longrightarrow>
     andExpression_loop left p =
       (case notExpression (skip 1 p) of
          (Inl e, p2) \<Rightarrow> (Inl e, p2)
        | (Inr right, p2) \<Rightarrow> andExpression_loop (AndExpression left right) p2)"
  by (subst andExpression_loop.simps) (simp add: matchesAny_yes del: matchesAny.simps)

lemma andExpression_loop_stop:
  "remaining p = (ty, v) # rest \<Longrightarrow> ty \<noteq> AND \<Longrightarrow> andExpression_loop left p = (Inr left, p)"
  by (subst andExpression_loop.simps) (simp add: matchesAny_no del: matchesAny.simps)

lemma orExpression_loop_OR:
  "remaining p = (OR, v) # rest \<Longrightarrow>
     orExpression_loop left p =
       (case andExpression (skip 1 p) of
          (Inl e, p2) \<Rightarrow> (Inl e, p2)
        | (Inr right, p2) \<Rightarrow> orExpression_loop (OrExpression left right) p2)"
  by (subst orExpression_loop.simps) (simp add: matchesAny_yes del: matchesAny.simps)

lemma orExpression_loop_stop:
  "remaining p = (ty, v) # rest \<Longrightarrow> ty \<noteq> OR \<Longrightarrow> orExpression_loop left p = (Inr left, p)"
  by (subst orExpression_loop.simps) (simp add: matchesAny_no del: matchesAny.simps)

text \<open>
  What each rule does on a printed expression. \<open>atNot e\<close>: \<^verbatim>\<open>#notExpression\<close> reads \<open>e\<close>
  written at the level of \<^verbatim>\<open>not_expr\<close> and stops behind it. \<open>atAnd e\<close>: \<^verbatim>\<open>#andExpression\<close>
  reads \<open>e\<close> written at the level of \<^verbatim>\<open>and_expr\<close> and goes on with its loop, \<open>e\<close> being
  the left operand. \<open>atOr e\<close>: the same for \<^verbatim>\<open>#orExpression\<close>, when no \<^verbatim>\<open>and\<close> follows.
\<close>

definition atNot :: "Expression \<Rightarrow> bool" where
  "atNot e \<longleftrightarrow>
     (\<forall>p rest. remaining p = render NotLevel e @ rest \<longrightarrow>
        notExpression p = (Inr e, skip (length (render NotLevel e)) p))"

definition atAnd :: "Expression \<Rightarrow> bool" where
  "atAnd e \<longleftrightarrow>
     (\<forall>p rest. remaining p = render AndLevel e @ rest \<longrightarrow>
        andExpression p = andExpression_loop e (skip (length (render AndLevel e)) p))"

definition atOr :: "Expression \<Rightarrow> bool" where
  "atOr e \<longleftrightarrow>
     (\<forall>p rest. remaining p = render OrLevel e @ rest \<longrightarrow> rest \<noteq> [] \<longrightarrow> fst (hd rest) \<noteq> AND \<longrightarrow>
        orExpression p = orExpression_loop e (skip (length (render OrLevel e)) p))"

lemma atAnd_from_atNot:
  assumes "atNot e" and "render AndLevel e = render NotLevel e"
  shows "atAnd e"
  unfolding atAnd_def
proof (intro allI impI)
  fix p rest
  assume r: "remaining p = render AndLevel e @ rest"
  then have "notExpression p = (Inr e, skip (length (render NotLevel e)) p)"
    using assms by (simp add: atNot_def)
  then show "andExpression p = andExpression_loop e (skip (length (render AndLevel e)) p)"
    using assms(2) by (subst andExpression.simps) simp
qed

lemma atOr_from_atAnd:
  assumes "atAnd e" and "render OrLevel e = render AndLevel e"
  shows "atOr e"
  unfolding atOr_def
proof (intro allI impI)
  fix p rest
  assume r: "remaining p = render OrLevel e @ rest" and ne: "rest \<noteq> []" and h: "fst (hd rest) \<noteq> AND"
  let ?q = "skip (length (render AndLevel e)) p"
  have a: "andExpression p = andExpression_loop e ?q"
    using assms r by (simp add: atAnd_def)
  have "remaining ?q = rest"
    using remaining_skip[of p "render AndLevel e" rest] r assms(2) by simp
  then obtain ty v rest' where "remaining ?q = (ty, v) # rest'" "ty \<noteq> AND"
    using ne h by (cases rest) auto
  then have "andExpression_loop e ?q = (Inr e, ?q)"
    by (rule andExpression_loop_stop)
  then show "orExpression p = orExpression_loop e (skip (length (render OrLevel e)) p)"
    using a assms(2) by (subst orExpression.simps) simp
qed

lemma atNot_from_atOr:
  assumes "atOr e" and "render NotLevel e = (LEFT_PAREN, ''('') # render OrLevel e @ [(RIGHT_PAREN, '')'')]"
  shows "atNot e"
  unfolding atNot_def
proof (intro allI impI)
  fix p rest
  let ?n = "length (render OrLevel e)"
  assume "remaining p = render NotLevel e @ rest"
  then have r: "remaining p = (LEFT_PAREN, ''('') # render OrLevel e @ (RIGHT_PAREN, '')'') # rest"
    using assms(2) by simp
  have r1: "remaining (skip 1 p) = render OrLevel e @ (RIGHT_PAREN, '')'') # rest"
    using remaining_skip1[OF r] .
  have r2: "remaining (skip ?n (skip 1 p)) = (RIGHT_PAREN, '')'') # rest"
    using remaining_skip[OF r1] .
  have "orExpression (skip 1 p) = orExpression_loop e (skip ?n (skip 1 p))"
    using assms(1) r1 by (simp add: atOr_def)
  also have "\<dots> = (Inr e, skip ?n (skip 1 p))"
    using r2 by (rule orExpression_loop_stop) simp
  finally have e: "expression (skip 1 p) = (Inr e, skip ?n (skip 1 p))"
    by (subst expression.simps)
  obtain t where c: "consume RIGHT_PAREN (''Expected '' @ [CHR 0x27] @ '')'' @ [CHR 0x27] @ '' after expression'')
        (skip ?n (skip 1 p)) = (Inr t, skip 1 (skip ?n (skip 1 p)))"
    using consume_yes[OF r2] by blast
  have "primary p = (Inr e, skip 1 (skip ?n (skip 1 p)))"
    using primary_LEFT_PAREN[OF r] e c by simp
  moreover have "notExpression p = primary p"
    using r by (rule notExpression_other) simp
  ultimately show "notExpression p = (Inr e, skip (length (render NotLevel e)) p)"
    using assms(2) by (simp add: skip_skip)
qed

lemma parser_reads_render: "atNot e \<and> atAnd e \<and> atOr e"
proof (induction e)
  case (IdentifierExpression x)
  have n: "atNot (IdentifierExpression x)"
    unfolding atNot_def
  proof (intro allI impI)
    fix p rest
    assume "remaining p = render NotLevel (IdentifierExpression x) @ rest"
    then have r: "remaining p = (IDENTIFIER, x) # rest"
      by simp
    have "notExpression p = primary p"
      using r by (rule notExpression_other) simp
    then show "notExpression p =
        (Inr (IdentifierExpression x), skip (length (render NotLevel (IdentifierExpression x))) p)"
      using primary_IDENTIFIER[OF r] by simp
  qed
  have a: "atAnd (IdentifierExpression x)"
    using n by (rule atAnd_from_atNot) simp
  have "atOr (IdentifierExpression x)"
    using a by (rule atOr_from_atAnd) simp
  then show ?case using n a by simp
next
  case (NotExpression e)
  have n: "atNot (NotExpression e)"
    unfolding atNot_def
  proof (intro allI impI)
    fix p rest
    let ?n = "length (render NotLevel e)"
    assume "remaining p = render NotLevel (NotExpression e) @ rest"
    then have r: "remaining p = (NOT, ''not'') # render NotLevel e @ rest"
      by simp
    have r1: "remaining (skip 1 p) = render NotLevel e @ rest"
      using remaining_skip1[OF r] .
    have "notExpression (skip 1 p) = (Inr e, skip ?n (skip 1 p))"
      using NotExpression.IH r1 by (simp add: atNot_def)
    then show "notExpression p =
        (Inr (NotExpression e), skip (length (render NotLevel (NotExpression e))) p)"
      using notExpression_NOT[OF r] by (simp add: skip_skip)
  qed
  have a: "atAnd (NotExpression e)"
    using n by (rule atAnd_from_atNot) simp
  have "atOr (NotExpression e)"
    using a by (rule atOr_from_atAnd) simp
  then show ?case using n a by simp
next
  case (AndExpression l r)
  have a: "atAnd (AndExpression l r)"
    unfolding atAnd_def
  proof (intro allI impI)
    fix p rest
    let ?nl = "length (render AndLevel l)" and ?nr = "length (render NotLevel r)"
    assume "remaining p = render AndLevel (AndExpression l r) @ rest"
    then have r0: "remaining p = render AndLevel l @ (AND, ''and'') # render NotLevel r @ rest"
      by (simp add: paren_def)
    have r1: "remaining (skip ?nl p) = (AND, ''and'') # render NotLevel r @ rest"
      using remaining_skip[OF r0] .
    have r2: "remaining (skip 1 (skip ?nl p)) = render NotLevel r @ rest"
      using remaining_skip1[OF r1] .
    have "andExpression p = andExpression_loop l (skip ?nl p)"
      using AndExpression.IH(1) r0 by (simp add: atAnd_def)
    moreover have "notExpression (skip 1 (skip ?nl p)) = (Inr r, skip ?nr (skip 1 (skip ?nl p)))"
      using AndExpression.IH(2) r2 by (simp add: atNot_def)
    ultimately show "andExpression p =
        andExpression_loop (AndExpression l r) (skip (length (render AndLevel (AndExpression l r))) p)"
      using andExpression_loop_AND[OF r1, of l] by (simp add: skip_skip paren_def add.assoc)
  qed
  have o: "atOr (AndExpression l r)"
    using a by (rule atOr_from_atAnd) (simp add: paren_def)
  have "atNot (AndExpression l r)"
    using o by (rule atNot_from_atOr) (simp add: paren_def)
  then show ?case using a o by simp
next
  case (OrExpression l r)
  have o: "atOr (OrExpression l r)"
    unfolding atOr_def
  proof (intro allI impI)
    fix p rest
    let ?nl = "length (render OrLevel l)" and ?nr = "length (render AndLevel r)"
    assume "remaining p = render OrLevel (OrExpression l r) @ rest"
      and ne: "rest \<noteq> []" and h: "fst (hd rest) \<noteq> AND"
    then have r0: "remaining p = render OrLevel l @ (OR, ''or'') # render AndLevel r @ rest"
      by (simp add: paren_def)
    have r1: "remaining (skip ?nl p) = (OR, ''or'') # render AndLevel r @ rest"
      using remaining_skip[OF r0] .
    have r2: "remaining (skip 1 (skip ?nl p)) = render AndLevel r @ rest"
      using remaining_skip1[OF r1] .
    have r3: "remaining (skip ?nr (skip 1 (skip ?nl p))) = rest"
      using remaining_skip[OF r2] .
    have "orExpression p = orExpression_loop l (skip ?nl p)"
      using OrExpression.IH(1) r0 by (simp add: atOr_def)
    moreover have "andExpression (skip 1 (skip ?nl p)) =
        andExpression_loop r (skip ?nr (skip 1 (skip ?nl p)))"
      using OrExpression.IH(2) r2 by (simp add: atAnd_def)
    moreover obtain ty v rest' where "remaining (skip ?nr (skip 1 (skip ?nl p))) = (ty, v) # rest'"
        "ty \<noteq> AND"
      using r3 ne h by (cases rest) auto
    then have "andExpression_loop r (skip ?nr (skip 1 (skip ?nl p))) =
        (Inr r, skip ?nr (skip 1 (skip ?nl p)))"
      by (rule andExpression_loop_stop)
    ultimately show "orExpression p =
        orExpression_loop (OrExpression l r) (skip (length (render OrLevel (OrExpression l r))) p)"
      using orExpression_loop_OR[OF r1, of l] by (simp add: skip_skip paren_def add.assoc)
  qed
  have n: "atNot (OrExpression l r)"
    using o by (rule atNot_from_atOr) (simp add: paren_def)
  have "atAnd (OrExpression l r)"
    using n by (rule atAnd_from_atNot) (simp add: paren_def)
  then show ?case using n o by simp
qed

lemma render_head: "\<exists>ty v xs. render lvl e = (ty, v) # xs \<and> ty \<noteq> EOF"
proof (induction e arbitrary: lvl)
  case (IdentifierExpression x)
  show ?case by simp
next
  case (AndExpression l r)
  obtain ty v xs where "render AndLevel l = (ty, v) # xs" "ty \<noteq> EOF"
    using AndExpression.IH(1) by blast
  then show ?case by (simp add: paren_def)
next
  case (OrExpression l r)
  obtain ty v xs where "render OrLevel l = (ty, v) # xs" "ty \<noteq> EOF"
    using OrExpression.IH(1) by blast
  then show ?case by (simp add: paren_def)
next
  case (NotExpression e)
  show ?case by simp
qed

text \<open>\<^verbatim>\<open>Parser.parse\<close> on the tokens of a printed expression, with the end marker behind.\<close>

lemma Parser_parse_render:
  assumes "map typeAndValue ts = render OrLevel e @ [(EOF, v)]"
  shows "fst (Parser_parse \<lparr>tokens = ts, current = 0\<rparr>) = Inr e"
proof -
  let ?p = "\<lparr>tokens = ts, current = 0\<rparr>"
  let ?q = "skip (length (render OrLevel e)) ?p"
  have r: "remaining ?p = render OrLevel e @ [(EOF, v)]"
    using assms by (simp add: remaining_def)
  obtain ty v' xs where h: "render OrLevel e = (ty, v') # xs" "ty \<noteq> EOF"
    using render_head by blast
  then obtain t where t: "Parser_peek ?p = Some t" "tok_type t = ty"
    using remaining_peek(1)[of ?p ty v' "xs @ [(EOF, v)]"] r by auto
  have r1: "remaining ?q = [(EOF, v)]"
    using remaining_skip[OF r] .
  then obtain t1 where t1: "Parser_peek ?q = Some t1" "tok_type t1 = EOF"
    using remaining_peek(1)[of ?q EOF v "[]"] by auto
  have "atOr e"
    using parser_reads_render by simp
  then have "orExpression ?p = orExpression_loop e ?q"
    using r by (simp add: atOr_def)
  also have "\<dots> = (Inr e, ?q)"
    using r1 by (rule orExpression_loop_stop) simp
  finally have "expression ?p = (Inr e, ?q)"
    by (subst expression.simps)
  then show ?thesis
    using t h(2) t1 by (simp add: Parser_parse_def hasReachedEOF_def)
qed

text \<open>
  The printed expression as a string: its words joined by single spaces. An identifier can
  be read back when it is a name the tokenizer gives the type IDENTIFIER: not empty,
  without whitespace and parentheses, and no keyword in any spelling.
\<close>

fun unwords :: "string list \<Rightarrow> string" where
  "unwords [] = []"
| "unwords [w] = w"
| "unwords (w # ws) = w @ '' '' @ unwords ws"

definition toText :: "Expression \<Rightarrow> string" where
  "toText e = unwords (map snd (render OrLevel e))"

definition validName :: "string \<Rightarrow> bool" where
  "validName x \<longleftrightarrow> x \<noteq> [] \<and> list_all (\<lambda>c. \<not> isDelimiter c) x \<and> matchKeyword x = None"

fun wellFormed :: "Expression \<Rightarrow> bool" where
  "wellFormed (IdentifierExpression x) = validName x"
| "wellFormed (AndExpression l r) = (wellFormed l \<and> wellFormed r)"
| "wellFormed (OrExpression l r) = (wellFormed l \<and> wellFormed r)"
| "wellFormed (NotExpression e) = wellFormed e"

text \<open>A word that the tokenizer reads as one token of the given type.\<close>

definition validLexeme :: "TokenType \<times> string \<Rightarrow> bool" where
  "validLexeme l \<longleftrightarrow>
     l = (LEFT_PAREN, ''('') \<or> l = (RIGHT_PAREN, '')'') \<or>
     (snd l \<noteq> [] \<and> list_all (\<lambda>c. \<not> isDelimiter c) (snd l) \<and> classify (snd l) = fst l)"

lemma keyword_lexemes:
  "validLexeme (AND, ''and'')" "validLexeme (OR, ''or'')" "validLexeme (NOT, ''not'')"
  by (simp_all add: validLexeme_def classify_def matchKeyword_def toLocaleLowerCase_keywords
        isDelimiter_def isWhitespace_def Let_def)

lemma render_valid: "wellFormed e \<Longrightarrow> list_all validLexeme (render lvl e)"
proof (induction e arbitrary: lvl)
  case (IdentifierExpression x)
  then show ?case
    by (simp add: validLexeme_def validName_def classify_def)
next
  case (AndExpression l r)
  then show ?case
    by (simp add: paren_def keyword_lexemes) (simp add: validLexeme_def)
next
  case (OrExpression l r)
  then show ?case
    by (simp add: paren_def keyword_lexemes) (simp add: validLexeme_def)
next
  case (NotExpression e)
  then show ?case
    by (simp add: keyword_lexemes)
qed

lemma unwords_Cons:
  "unwords (w # ws) = w @ (if ws = [] then [] else '' '' @ unwords ws)"
  by (cases ws) simp_all

text \<open>The token loop on words joined by spaces, the cursor before whitespace \<open>w0\<close>.\<close>

lemma tokenize_loop_unwords:
  assumes "list_all validLexeme ls"
    and "drop (position st) (input st) = w0 @ unwords (map snd ls)"
    and "list_all isSpaceChar w0"
  shows "\<exists>new. tokenize_loop acc st = Inr (acc @ new) \<and> map typeAndValue new = ls @ [(EOF, [])]"
  using assms
proof (induction ls arbitrary: st acc w0)
  case Nil
  let ?rest = "dropWhile isSpaceChar (drop (position st) (input st))"
  obtain tok st' where n: "nextToken st = Inr (tok, st')"
    and t: "tokenAt ?rest tok (drop (position st') (input st))"
    using nextToken_spec[of st] by blast
  have r: "?rest = []"
    using Nil.prems(2,3) by (simp add: list_all_iff)
  have "tokenAt [] tok (drop (position st') (input st))"
    using t unfolding r .
  then have e: "tok_type tok = EOF" "tok_value tok = []"
    by (simp_all add: tokenAt_def)
  then have "tokenize_loop acc st = Inr (acc @ [tok])"
    using n by (subst tokenize_loop.simps) simp
  moreover have "map typeAndValue [tok] = [] @ [(EOF, [])]"
    using e by (simp add: typeAndValue_def)
  ultimately show ?case by blast
next
  case (Cons l ls)
  let ?rest = "dropWhile isSpaceChar (drop (position st) (input st))"
  let ?post = "if ls = [] then [] else '' '' @ unwords (map snd ls)"
  obtain tok st' where n: "nextToken st = Inr (tok, st')" and i: "input st' = input st"
    and t: "tokenAt ?rest tok (drop (position st') (input st))"
    using nextToken_spec[of st] by blast
  have v: "validLexeme l" and vs: "list_all validLexeme ls"
    using Cons.prems(1) by simp_all
  have ne: "snd l \<noteq> []" and ns: "\<not> isSpaceChar (hd (snd l))"
  proof -
    consider (lp) "l = (LEFT_PAREN, ''('')" | (rp) "l = (RIGHT_PAREN, '')'')"
      | (word) "snd l \<noteq> []" "list_all (\<lambda>c. \<not> isDelimiter c) (snd l)"
      using v unfolding validLexeme_def by blast
    then have "snd l \<noteq> [] \<and> \<not> isSpaceChar (hd (snd l))"
    proof cases
      case lp
      then show ?thesis by (simp add: isSpaceChar_def isWhitespace_def)
    next
      case rp
      then show ?thesis by (simp add: isSpaceChar_def isWhitespace_def)
    next
      case word
      then have "\<not> isDelimiter (hd (snd l))"
        by (cases "snd l") simp_all
      then show ?thesis
        using word(1) by (simp add: isDelimiter_def isSpaceChar_def)
    qed
    then show "snd l \<noteq> []" and "\<not> isSpaceChar (hd (snd l))"
      by simp_all
  qed
  have d: "drop (position st) (input st) = w0 @ snd l @ ?post"
    using Cons.prems(2) unwords_Cons[of "snd l" "map snd ls"] by simp
  obtain c cs where cs: "snd l = c # cs"
    using ne by (cases "snd l") auto
  have r: "?rest = snd l @ ?post"
    using d Cons.prems(3) ns cs by (simp add: list_all_iff dropWhile_append2)
  have t': "tokenAt (snd l @ ?post) tok (drop (position st') (input st))"
    using t unfolding r .
  have sp: "list_all isSpaceChar '' ''"
    by (simp add: isSpaceChar_def isWhitespace_def)
  have res: "typeAndValue tok = l \<and> drop (position st') (input st) = ?post"
  proof (cases "l = (LEFT_PAREN, ''('') \<or> l = (RIGHT_PAREN, '')'')")
    case True
    then show ?thesis
      using t' by (auto simp: tokenAt_def typeAndValue_def)
  next
    case False
    then have w: "list_all (\<lambda>c. \<not> isDelimiter c) (snd l)" and k: "classify (snd l) = fst l"
      using v by (simp_all add: validLexeme_def)
    have np: "c \<noteq> CHR ''(''" "c \<noteq> CHR '')''"
      using w cs by (auto simp: isDelimiter_def)
    have pd: "?post = [] \<or> isDelimiter (hd ?post)"
      by (simp add: isDelimiter_def isWhitespace_def)
    have tw: "takeWhile (\<lambda>c. \<not> isDelimiter c) (snd l @ ?post) = snd l"
      using w pd by (cases ?post) (simp_all add: list_all_iff takeWhile_tail)
    have dw: "dropWhile (\<lambda>c. \<not> isDelimiter c) (snd l @ ?post) = ?post"
      using w pd by (cases ?post) (simp_all add: list_all_iff dropWhile_append2)
    have "tok_type tok = classify (snd l) \<and> tok_value tok = snd l \<and>
          drop (position st') (input st) = ?post"
      using t' np cs tw dw by (simp add: tokenAt_def)
    then show ?thesis
      using k by (simp add: typeAndValue_def prod_eq_iff)
  qed
  have ty: "tok_type tok \<noteq> EOF"
    using tokenAt_EOF[OF t'] ne by simp
  have d': "drop (position st') (input st') = (if ls = [] then [] else '' '') @ unwords (map snd ls)"
    using res i by simp
  have sp': "list_all isSpaceChar (if ls = [] then [] else '' '')"
    using sp by simp
  obtain new where l1: "tokenize_loop (acc @ [tok]) st' = Inr ((acc @ [tok]) @ new)"
    and m: "map typeAndValue new = ls @ [(EOF, [])]"
    using Cons.IH[OF vs d' sp', of "acc @ [tok]"] by blast
  have "tokenize_loop acc st = Inr (acc @ tok # new)"
    using n ty l1 by (subst tokenize_loop.simps) simp
  moreover have "map typeAndValue (tok # new) = (l # ls) @ [(EOF, [])]"
    using res m by simp
  ultimately show ?case by blast
qed

lemma tokenize_toText:
  assumes "wellFormed e"
  shows "\<exists>ts. tokenize (toText e) = Inr ts \<and> map typeAndValue ts = render OrLevel e @ [(EOF, [])]"
proof -
  let ?st = "\<lparr>input = toText e, position = 0, line = 1, column = 1\<rparr>"
  have d: "drop (position ?st) (input ?st) = [] @ unwords (map snd (render OrLevel e))"
    by (simp add: toText_def)
  have "list_all isSpaceChar []"
    by simp
  from tokenize_loop_unwords[OF render_valid[OF assms] d this, of "[]"]
  show ?thesis
    by (simp add: tokenize_def)
qed

lemma parse_toText: "wellFormed e \<Longrightarrow> parse (toText e) = Inr e"
proof -
  assume "wellFormed e"
  then obtain ts where "tokenize (toText e) = Inr ts"
    "map typeAndValue ts = render OrLevel e @ [(EOF, [])]"
    using tokenize_toText by blast
  then show ?thesis
    using Parser_parse_render[of ts e "[]"] by (simp add: parse_def)
qed

lemma parse_or_and:
  "parse ''a or b and c'' =
     Inr (OrExpression (IdentifierExpression ''a'')
            (AndExpression (IdentifierExpression ''b'') (IdentifierExpression ''c'')))"
  by code_simp

lemma parse_not_and:
  "parse ''not a and b'' =
     Inr (AndExpression (NotExpression (IdentifierExpression ''a'')) (IdentifierExpression ''b''))"
  by code_simp

lemma parse_and_and:
  "parse ''a and b and c'' =
     Inr (AndExpression (AndExpression (IdentifierExpression ''a'') (IdentifierExpression ''b''))
            (IdentifierExpression ''c''))"
  by code_simp

lemma parse_not_not:
  "parse ''not not a'' = Inr (NotExpression (NotExpression (IdentifierExpression ''a'')))"
  by code_simp

text \<open>
  C1. The parser gives \<^verbatim>\<open>or\<close> a lower precedence than \<^verbatim>\<open>and\<close>, and \<^verbatim>\<open>and\<close> a lower one than
  \<^verbatim>\<open>not\<close>; \<^verbatim>\<open>and\<close> and \<^verbatim>\<open>or\<close> associate to the left and \<^verbatim>\<open>not\<close> to the right. In general:
  every expression tree whose identifiers are names, written out with the parentheses that
  this precedence and associativity require and no others, parses to itself. In
  particular \<^verbatim>\<open>a or b and c\<close> parses to Or(a, And(b, c)), \<^verbatim>\<open>not a and b\<close> to And(Not(a), b),
  \<^verbatim>\<open>a and b and c\<close> to And(And(a, b), c) and \<^verbatim>\<open>not not a\<close> to Not(Not(a)).
\<close>

theorem parse_precedence_associativity:
  "(wellFormed e \<longrightarrow> parse (toText e) = Inr e) \<and>
   parse ''a or b and c'' =
     Inr (OrExpression (IdentifierExpression ''a'')
            (AndExpression (IdentifierExpression ''b'') (IdentifierExpression ''c''))) \<and>
   parse ''not a and b'' =
     Inr (AndExpression (NotExpression (IdentifierExpression ''a'')) (IdentifierExpression ''b'')) \<and>
   parse ''a and b and c'' =
     Inr (AndExpression (AndExpression (IdentifierExpression ''a'') (IdentifierExpression ''b''))
            (IdentifierExpression ''c'')) \<and>
   parse ''not not a'' = Inr (NotExpression (NotExpression (IdentifierExpression ''a'')))"
  using parse_toText parse_or_and parse_not_and parse_and_and parse_not_not
  by (intro conjI impI)

lemma validName_examples: "validName ''a''" "validName ''b''" "validName ''c''"
  by (simp_all add: validName_def isDelimiter_def isWhitespace_def matchKeyword_def
        toLocaleLowerCase_def Let_def)

lemma toText_examples:
  "toText (OrExpression (OrExpression (IdentifierExpression ''a'') (IdentifierExpression ''b''))
      (IdentifierExpression ''c'')) = ''a or b or c''"
  "toText (OrExpression (IdentifierExpression ''a'')
      (OrExpression (IdentifierExpression ''b'') (IdentifierExpression ''c''))) = ''a or ( b or c )''"
  "toText (OrExpression (AndExpression (IdentifierExpression ''a'') (IdentifierExpression ''b''))
      (IdentifierExpression ''c'')) = ''a and b or c''"
  "toText (AndExpression (IdentifierExpression ''a'')
      (OrExpression (IdentifierExpression ''b'') (IdentifierExpression ''c''))) = ''a and ( b or c )''"
  "toText (NotExpression (AndExpression (IdentifierExpression ''a'') (IdentifierExpression ''b'')))
      = ''not ( a and b )''"
  by (simp_all add: toText_def paren_def)

theorem parse_precedence_associativity_witness:
  "parse ''a or b or c'' =
     Inr (OrExpression (OrExpression (IdentifierExpression ''a'') (IdentifierExpression ''b''))
            (IdentifierExpression ''c'')) \<and>
   parse ''a or ( b or c )'' =
     Inr (OrExpression (IdentifierExpression ''a'')
            (OrExpression (IdentifierExpression ''b'') (IdentifierExpression ''c''))) \<and>
   parse ''a and b or c'' =
     Inr (OrExpression (AndExpression (IdentifierExpression ''a'') (IdentifierExpression ''b''))
            (IdentifierExpression ''c'')) \<and>
   parse ''a and ( b or c )'' =
     Inr (AndExpression (IdentifierExpression ''a'')
            (OrExpression (IdentifierExpression ''b'') (IdentifierExpression ''c''))) \<and>
   parse ''not ( a and b )'' =
     Inr (NotExpression (AndExpression (IdentifierExpression ''a'') (IdentifierExpression ''b'')))"
proof -
  let ?a = "IdentifierExpression ''a''" and ?b = "IdentifierExpression ''b''"
    and ?c = "IdentifierExpression ''c''"
  have w: "wellFormed (OrExpression (OrExpression ?a ?b) ?c)"
    "wellFormed (OrExpression ?a (OrExpression ?b ?c))"
    "wellFormed (OrExpression (AndExpression ?a ?b) ?c)"
    "wellFormed (AndExpression ?a (OrExpression ?b ?c))"
    "wellFormed (NotExpression (AndExpression ?a ?b))"
    by (simp_all add: validName_examples)
  show ?thesis
    using parse_precedence_associativity[of "OrExpression (OrExpression ?a ?b) ?c", THEN conjunct1, rule_format, OF w(1)]
      parse_precedence_associativity[of "OrExpression ?a (OrExpression ?b ?c)", THEN conjunct1, rule_format, OF w(2)]
      parse_precedence_associativity[of "OrExpression (AndExpression ?a ?b) ?c", THEN conjunct1, rule_format, OF w(3)]
      parse_precedence_associativity[of "AndExpression ?a (OrExpression ?b ?c)", THEN conjunct1, rule_format, OF w(4)]
      parse_precedence_associativity[of "NotExpression (AndExpression ?a ?b)", THEN conjunct1, rule_format, OF w(5)]
    unfolding toText_examples
    by (intro conjI)
qed


subsection \<open>Evaluator: identifiers\<close>

text \<open>
  C2. An identifier node with pattern \<open>p\<close> evaluates to true against the subjects \<open>S\<close>
  exactly when some string of \<open>S\<close> is equal to \<open>p\<close>, character by character: the
  comparison is case-sensitive and a \<^verbatim>\<open>*\<close> in the pattern is an ordinary character. Against
  the empty list every identifier is false.
\<close>

theorem evaluate_identifier_exact:
  "(evaluate (IdentifierExpression p) S \<longleftrightarrow> p \<in> set S) \<and> \<not> evaluate (IdentifierExpression p) []"
  by (auto simp: evaluate_eval evaluateIdentifier_def list_ex_iff)

theorem evaluate_identifier_exact_witness:
  "evaluate (IdentifierExpression ''test_*'') [''fast'', ''test_*''] \<and>
   \<not> evaluate (IdentifierExpression ''test_*'') [''test_slow''] \<and>
   \<not> evaluate (IdentifierExpression ''slow'') [''Slow'']"
  using evaluate_identifier_exact[of "''test_*''" "[''fast'', ''test_*'']"]
    evaluate_identifier_exact[of "''test_*''" "[''test_slow'']"]
    evaluate_identifier_exact[of "''slow''" "[''Slow'']"]
  by simp

subsection \<open>Tokenizer: the end marker\<close>

text \<open>
  C3. For every input string, the empty one and those of whitespace only included,
  \<^verbatim>\<open>tokenize\<close> returns a token sequence that is not empty, whose last token has type EOF
  and the empty value, and in which EOF occurs exactly once, as the last token.
\<close>

theorem tokenize_ends_with_single_EOF:
  "\<exists>ts. tokenize inp = Inr ts \<and> ts \<noteq> [] \<and>
     tok_type (last ts) = EOF \<and> tok_value (last ts) = '''' \<and>
     filter isEOF (butlast ts) = [] \<and> length (filter isEOF ts) = 1"
proof -
  obtain ts where t: "tokenize inp = Inr ts" "ts \<noteq> []" "tok_type (last ts) = EOF"
      "tok_value (last ts) = []" "filter isEOF (butlast ts) = []"
    using tokenize_shape by blast
  have "ts = butlast ts @ [last ts]"
    using t(2) by simp
  then have "filter isEOF ts = filter isEOF (butlast ts) @ filter isEOF [last ts]"
    by (metis filter_append)
  then have "length (filter isEOF ts) = 1"
    using t by (simp add: isEOF_def)
  then show ?thesis using t by simp
qed

lemma tokenize_whitespace_only:
  "tokenize [CHR '' '', CHR 0x09, CHR 0x0D, CHR 0x0A, CHR 0x0A] =
     Inr [\<lparr>tok_type = EOF, tok_value = '''', tok_position = 5, tok_line = 3, tok_column = 1\<rparr>]"
  by code_simp

theorem tokenize_ends_with_single_EOF_witness:
  "tokenize [CHR '' '', CHR 0x09, CHR 0x0D, CHR 0x0A, CHR 0x0A] =
     Inr [\<lparr>tok_type = EOF, tok_value = '''', tok_position = 5, tok_line = 3, tok_column = 1\<rparr>] \<and>
   (\<exists>ts. tokenize '''' = Inr ts \<and> ts \<noteq> [] \<and>
     tok_type (last ts) = EOF \<and> tok_value (last ts) = '''' \<and>
     filter isEOF (butlast ts) = [] \<and> length (filter isEOF ts) = 1)"
  using tokenize_ends_with_single_EOF[of "''''"] tokenize_whitespace_only by simp

subsection \<open>Parser: error messages\<close>

lemma parse_error_empty:
  \<open>parse '''' = Inl (ParseError ''Unexpected end of input: expected expression'' 0 1 1 ''expression'' ''EOF'')\<close>
  by code_simp

lemma parse_error_and_slow:
  \<open>parse ''and slow'' =
     Inl (ParseError ''Unexpected 'and': missing left operand'' 0 1 1 ''identifier or "("'' ''and'')\<close>
  by code_simp

lemma parse_error_parens:
  \<open>parse ''()'' =
     Inl (ParseError ''Unexpected ')': missing opening parenthesis or expression'' 1 1 2
            ''identifier or "("'' '')'')\<close>
  by code_simp

lemma parse_error_stray_paren:
  \<open>parse ''slow and fast)'' =
     Inl (ParseError (''Unexpected token ')'' @ [CHR 0x27]) 13 1 14 ''end of expression'' '')'')\<close>
  by code_simp

lemma parse_error_unclosed:
  \<open>parse ''(slow and fast'' =
     Inl (ParseError ''Expected ')' after expression'' 14 1 15 ''RIGHT_PAREN'' ''EOF'')\<close>
  by code_simp

text \<open>
  C4. \<^verbatim>\<open>parse\<close> fails with a ParseError that carries exactly the message of the specification:
  on the empty string "Unexpected end of input: expected expression", on \<^verbatim>\<open>and slow\<close>
  "Unexpected 'and': missing left operand", on \<^verbatim>\<open>()\<close>
  "Unexpected ')': missing opening parenthesis or expression", on \<^verbatim>\<open>slow and fast)\<close>
  "Unexpected token ')'" and on \<^verbatim>\<open>(slow and fast\<close> "Expected ')' after expression". The
  theorem also gives the position, line, column, expected and actual fields of each error.
\<close>

theorem parse_error_messages:
  \<open>parse '''' = Inl (ParseError ''Unexpected end of input: expected expression'' 0 1 1 ''expression'' ''EOF'') \<and>
   parse ''and slow'' =
     Inl (ParseError ''Unexpected 'and': missing left operand'' 0 1 1 ''identifier or "("'' ''and'') \<and>
   parse ''()'' =
     Inl (ParseError ''Unexpected ')': missing opening parenthesis or expression'' 1 1 2
            ''identifier or "("'' '')'') \<and>
   parse ''slow and fast)'' =
     Inl (ParseError (''Unexpected token ')'' @ [CHR 0x27]) 13 1 14 ''end of expression'' '')'') \<and>
   parse ''(slow and fast'' =
     Inl (ParseError ''Expected ')' after expression'' 14 1 15 ''RIGHT_PAREN'' ''EOF'')\<close>
  by (intro conjI parse_error_empty parse_error_and_slow parse_error_parens
        parse_error_stray_paren parse_error_unclosed)

subsection \<open>Evaluator: the connectives\<close>

text \<open>
  C5. \<^verbatim>\<open>evaluate\<close> is total and never fails: for every expression tree and every subject
  list it returns a boolean, and the result obeys the equations of the connectives: an And
  node is the conjunction of its two sides, an Or node their disjunction and a Not node the
  negation. The short-circuit evaluation of \<^verbatim>\<open>&&\<close> and \<^verbatim>\<open>||\<close> changes no result.
\<close>

theorem evaluate_compositional:
  "evaluate (AndExpression l r) S = (evaluate l S \<and> evaluate r S) \<and>
   evaluate (OrExpression l r) S = (evaluate l S \<or> evaluate r S) \<and>
   evaluate (NotExpression e) S = (\<not> evaluate e S)"
  by (simp add: evaluate_eval)

subsection \<open>Tokenizer: keywords\<close>

lemma nextToken_position:
  assumes "nextToken st = Inr (tok, st')"
  shows "tok_position tok =
           position st + length (takeWhile isSpaceChar (drop (position st) (input st)))"
proof -
  have "tok_position tok = position (skipWhitespace st)"
    using assms
    by (auto simp: nextToken_def readIdentifierOrKeyword_def createToken_def Let_def
        split: if_splits option.splits prod.splits)
  then show ?thesis
    using skipWhitespace_spec[of st] by simp
qed

lemma drop_eq_suffix_position:
  assumes "drop n (pre @ run @ post) = sfx @ run @ post" and "run \<noteq> []"
  shows "n = length pre - length sfx" and "n \<le> length pre"
proof -
  have "length (drop n (pre @ run @ post)) = length sfx + length run + length post"
    using assms(1) by simp
  moreover have "0 < length run"
    using assms(2) by simp
  ultimately have "length pre + length run + length post - n = length sfx + length run + length post"
    by simp
  then show "n = length pre - length sfx" and "n \<le> length pre"
    using \<open>0 < length run\<close> by linarith+
qed

text \<open>
  The token loop reaches every maximal run. The input is \<open>pre @ run @ post\<close>, where \<open>run\<close>
  is a run of characters that are neither whitespace nor parentheses, \<open>pre\<close> is empty or
  ends with such a character and \<open>post\<close> is empty or starts with one. From a cursor that
  is not behind the start of the run the loop pushes a token that starts where the run
  starts, has the run as its value and the type that \<^verbatim>\<open>#matchKeyword\<close> gives the run.
\<close>

lemma tokenize_loop_run:
  assumes "input st = pre @ run @ post" and "position st \<le> length pre"
    and "pre = [] \<or> isDelimiter (last pre)" and "run \<noteq> []"
    and "list_all (\<lambda>c. \<not> isDelimiter c) run" and "post = [] \<or> isDelimiter (hd post)"
  shows "\<exists>new tok. tokenize_loop acc st = Inr (acc @ new) \<and> tok \<in> set new \<and>
           tok_position tok = length pre \<and> tok_value tok = run \<and> tok_type tok = classify run"
  using assms(1,2)
proof (induction acc st rule: tokenize_loop.induct)
  case (1 acc st)
  let ?p = "position st"
  let ?gap = "drop ?p pre"
  let ?rest = "dropWhile isSpaceChar (drop ?p (input st))"
  obtain r rs where run: "run = r # rs"
    using assms(4) by (cases run) auto
  have nd: "\<not> isDelimiter r"
    using assms(5) run by simp
  then have ns: "\<not> isSpaceChar r" and np: "r \<noteq> CHR ''(''" "r \<noteq> CHR '')''"
    by (auto simp: isDelimiter_def isSpaceChar_def)
  have d: "drop ?p (input st) = ?gap @ run @ post"
    using "1.prems" by simp
  obtain tok st' where n: "nextToken st = Inr (tok, st')" and i: "input st' = input st"
    and t: "tokenAt ?rest tok (drop (position st') (input st))"
    using nextToken_spec[of st] by blast
  have tw: "takeWhile (\<lambda>c. \<not> isDelimiter c) (run @ post) = run"
    using assms(5,6) by (cases post) (simp_all add: list_all_iff takeWhile_tail)
  have dw: "dropWhile (\<lambda>c. \<not> isDelimiter c) (run @ post) = post"
    using assms(5,6) by (cases post) (simp_all add: list_all_iff dropWhile_append2)
  show ?case
  proof (cases "dropWhile isSpaceChar ?gap = []")
    case True
    then have all: "\<forall>c \<in> set ?gap. isSpaceChar c"
      by simp
    have "takeWhile isSpaceChar (?gap @ run @ post) = ?gap"
      using all ns run by (simp add: takeWhile_append2)
    then have pos: "tok_position tok = length pre"
      using nextToken_position[OF n] d "1.prems"(2) by simp
    have "?rest = run @ post"
      using d all ns run by (simp add: dropWhile_append2)
    then have "tokenAt (r # rs @ post) tok (drop (position st') (input st))"
      using t run by simp
    then have tv: "tok_type tok = classify run" "tok_value tok = run"
      using np tw run by (simp_all add: tokenAt_def)
    then have ne: "tok_type tok \<noteq> EOF"
      using classify_not_EOF by simp
    obtain res where res: "tokenize_loop (acc @ [tok]) st' = Inr res"
      using tokenize_loop_total by blast
    then obtain new where new: "res = (acc @ [tok]) @ new"
      using tokenize_loop_shape by blast
    have "tokenize_loop acc st = Inr (acc @ tok # new)"
      using n ne res new by (subst tokenize_loop.simps) simp
    then show ?thesis
      using pos tv by (intro exI[of _ "tok # new"] exI[of _ tok]) simp
  next
    case False
    then obtain c cs where g: "dropWhile isSpaceChar ?gap = c # cs"
      by (cases "dropWhile isSpaceChar ?gap") auto
    have c: "\<not> isSpaceChar c"
      using hd_dropWhile[of isSpaceChar ?gap] g by simp
    have gne: "?gap \<noteq> []"
      using g by auto
    then have lt: "?p < length pre"
      by simp
    then have pre: "pre \<noteq> []" and lastp: "isDelimiter (last pre)"
      using assms(3) by auto
    have "c # cs = drop (length (takeWhile isSpaceChar ?gap)) ?gap"
      using g by (simp add: dropWhile_eq_drop)
    moreover have "length (takeWhile isSpaceChar ?gap) < length ?gap"
      using g by (metis dropWhile_eq_drop drop_eq_Nil list.discI not_le)
    ultimately have "last (c # cs) = last ?gap"
      by (simp only: last_drop)
    also have "\<dots> = last pre"
      using lt by (rule last_drop)
    finally have dl: "isDelimiter (last (c # cs))"
      using lastp by simp
    have mem: "last (c # cs) \<in> set (c # cs)"
      by (rule last_in_set) simp
    have rest: "?rest = c # cs @ run @ post"
    proof -
      have "\<exists>x \<in> set ?gap. \<not> isSpaceChar x"
        using g by (metis dropWhile_eq_Nil_conv list.discI)
      then obtain x where "x \<in> set ?gap" "\<not> isSpaceChar x"
        by blast
      then have "dropWhile isSpaceChar (?gap @ run @ post) = dropWhile isSpaceChar ?gap @ run @ post"
        by (rule dropWhile_append1)
      then show ?thesis using d g by simp
    qed
    have t': "tokenAt (c # cs @ run @ post) tok (drop (position st') (input st))"
      using t unfolding rest .
    have ne: "tok_type tok \<noteq> EOF"
      using tokenAt_EOF[OF t'] by simp
    have "\<exists>sfx. drop (position st') (input st) = sfx @ run @ post"
    proof (cases "c = CHR ''('' \<or> c = CHR '')''")
      case True
      then have "drop (position st') (input st) = cs @ run @ post"
        using t' by (auto simp: tokenAt_def)
      then show ?thesis by blast
    next
      case False
      then have "drop (position st') (input st) =
          dropWhile (\<lambda>c. \<not> isDelimiter c) ((c # cs) @ run @ post)"
        using t' by (simp add: tokenAt_def)
      also have "\<dots> = dropWhile (\<lambda>c. \<not> isDelimiter c) (c # cs) @ run @ post"
        using mem dl by (intro dropWhile_append1[of "last (c # cs)"]) simp_all
      finally show ?thesis by blast
    qed
    then obtain sfx where "drop (position st') (input st) = sfx @ run @ post"
      by blast
    then have "drop (position st') (pre @ run @ post) = sfx @ run @ post"
      using "1.prems"(1) by simp
    then have le: "position st' \<le> length pre"
      using drop_eq_suffix_position(2)[OF _ assms(4)] by blast
    have i': "input st' = pre @ run @ post"
      using i "1.prems"(1) by simp
    obtain new tok' where "tokenize_loop (acc @ [tok]) st' = Inr ((acc @ [tok]) @ new)"
      "tok' \<in> set new" "tok_position tok' = length pre" "tok_value tok' = run"
      "tok_type tok' = classify run"
      using "1.IH"[OF n refl ne i' le] by blast
    moreover from this have "tokenize_loop acc st = Inr (acc @ tok # new)"
      using n ne by (subst tokenize_loop.simps) simp
    ultimately show ?thesis
      by (intro exI[of _ "tok # new"] exI[of _ tok']) simp
  qed
qed

lemma keyword_examples:
  "tokenize ''AND'' =
     Inr [\<lparr>tok_type = AND, tok_value = ''AND'', tok_position = 0, tok_line = 1, tok_column = 1\<rparr>,
          \<lparr>tok_type = EOF, tok_value = '''', tok_position = 3, tok_line = 1, tok_column = 4\<rparr>]"
  "tokenize ''And'' =
     Inr [\<lparr>tok_type = AND, tok_value = ''And'', tok_position = 0, tok_line = 1, tok_column = 1\<rparr>,
          \<lparr>tok_type = EOF, tok_value = '''', tok_position = 3, tok_line = 1, tok_column = 4\<rparr>]"
  "tokenize ''android'' =
     Inr [\<lparr>tok_type = IDENTIFIER, tok_value = ''android'', tok_position = 0, tok_line = 1, tok_column = 1\<rparr>,
          \<lparr>tok_type = EOF, tok_value = '''', tok_position = 7, tok_line = 1, tok_column = 8\<rparr>]"
  by code_simp+

text \<open>
  C6. Keywords are recognised without regard to case, keep the text as typed, and are whole
  runs only. Let the input be \<open>pre @ run @ post\<close>, where \<open>run\<close> is a maximal run of
  characters that are neither whitespace nor parentheses: it is not empty, \<open>pre\<close> is empty
  or ends with whitespace or a parenthesis, and \<open>post\<close> is empty or starts with one. Then
  \<^verbatim>\<open>tokenize\<close> emits a token that starts at the start of the run and has the run, in its
  original case, as its value; its type is AND, OR or NOT when the run compares
  case-insensitively equal to \<^verbatim>\<open>and\<close>, \<^verbatim>\<open>or\<close> or \<^verbatim>\<open>not\<close>, and IDENTIFIER otherwise, as for
  \<^verbatim>\<open>android\<close>, which only starts with a keyword.
\<close>

theorem keyword_recognition:
  assumes "run \<noteq> []"
    and "\<forall>c \<in> set run. \<not> isDelimiter c"
    and "pre = [] \<or> isDelimiter (last pre)"
    and "post = [] \<or> isDelimiter (hd post)"
  shows "\<exists>ts tok. tokenize (pre @ run @ post) = Inr ts \<and> tok \<in> set ts \<and>
           tok_position tok = length pre \<and> tok_value tok = run \<and>
           tok_type tok =
             (if equalsIgnoreCase run ''and'' then AND
              else if equalsIgnoreCase run ''or'' then OR
              else if equalsIgnoreCase run ''not'' then NOT
              else IDENTIFIER)"
proof -
  let ?st = "\<lparr>input = pre @ run @ post, position = 0, line = 1, column = 1\<rparr>"
  have a: "input ?st = pre @ run @ post" "position ?st \<le> length pre"
    by simp_all
  have b: "list_all (\<lambda>c. \<not> isDelimiter c) run"
    using assms(2) by (simp add: list_all_iff)
  obtain new tok where "tokenize_loop [] ?st = Inr ([] @ new)" "tok \<in> set new"
    "tok_position tok = length pre" "tok_value tok = run" "tok_type tok = classify run"
    using tokenize_loop_run[OF a assms(3) assms(1) b assms(4), of "[]"] by blast
  then show ?thesis
    by (auto simp: tokenize_def classify_def matchKeyword_equalsIgnoreCase)
qed

theorem keyword_recognition_witness:
  "(\<exists>ts tok. tokenize ''x AND y'' = Inr ts \<and> tok \<in> set ts \<and>
      tok_position tok = 2 \<and> tok_value tok = ''AND'' \<and> tok_type tok = AND) \<and>
   tokenize ''AND'' =
     Inr [\<lparr>tok_type = AND, tok_value = ''AND'', tok_position = 0, tok_line = 1, tok_column = 1\<rparr>,
          \<lparr>tok_type = EOF, tok_value = '''', tok_position = 3, tok_line = 1, tok_column = 4\<rparr>] \<and>
   tokenize ''android'' =
     Inr [\<lparr>tok_type = IDENTIFIER, tok_value = ''android'', tok_position = 0, tok_line = 1, tok_column = 1\<rparr>,
          \<lparr>tok_type = EOF, tok_value = '''', tok_position = 7, tok_line = 1, tok_column = 8\<rparr>]"
proof -
  have h1: "''AND'' \<noteq> []"
    by simp
  have h2: "\<forall>c \<in> set ''AND''. \<not> isDelimiter c"
    by (simp add: isDelimiter_def isWhitespace_def)
  have h3: "''x '' = [] \<or> isDelimiter (last ''x '')"
    by (simp add: isDelimiter_def isWhitespace_def)
  have h4: "'' y'' = [] \<or> isDelimiter (hd '' y'')"
    by (simp add: isDelimiter_def isWhitespace_def)
  have k: "equalsIgnoreCase ''AND'' ''and''"
    by (simp add: equalsIgnoreCase_and)
  have "\<exists>ts tok. tokenize ''x AND y'' = Inr ts \<and> tok \<in> set ts \<and>
      tok_position tok = 2 \<and> tok_value tok = ''AND'' \<and> tok_type tok = AND"
    using keyword_recognition[OF h1 h2 h3 h4] k by (simp add: eval_nat_numeral)
  then show ?thesis
    using keyword_examples(1,3) by (intro conjI)
qed

subsection \<open>Tokenizer: totality\<close>

text \<open>
  C7. The branch that throws TokenizerError cannot be reached: \<^verbatim>\<open>#nextToken\<close> returns a
  token from every state of the cursor, because after the whitespace and the two
  parentheses the character under the cursor always starts a run, and \<^verbatim>\<open>tokenize\<close> returns
  a token list for every input string.
\<close>

theorem tokenize_never_fails:
  "(\<exists>tok st'. nextToken st = Inr (tok, st')) \<and> (\<exists>ts. tokenize inp = Inr ts)"
  using nextToken_total tokenize_loop_total by (simp add: tokenize_def)

subsection \<open>Evaluator: the reusable form\<close>

text \<open>
  The object that \<^verbatim>\<open>createEvaluator\<close> returns evaluates, through its \<^verbatim>\<open>evaluate\<close> member, as
  the plain function does.
\<close>

lemma createEvaluator_evaluate: "ev_evaluate (createEvaluator e) S = evaluate e S"
  by (simp add: createEvaluator_def evaluate_def)

lemma parse_readme_example:
  "parse ''slow and not integration'' =
     Inr (AndExpression (IdentifierExpression ''slow'')
            (NotExpression (IdentifierExpression ''integration'')))"
  by code_simp

text \<open>
  C8. The specification and the readme take the result of \<^verbatim>\<open>createEvaluator\<close> for a function
  from subjects to a boolean that agrees with \<^verbatim>\<open>evaluate\<close>. In the code the result is the
  ExpressionEvaluator object itself: on the example of the readme, the expression
  \<^verbatim>\<open>slow and not integration\<close> and the subjects \<^verbatim>\<open>slow\<close> and \<^verbatim>\<open>unit\<close>, applying it raises a
  TypeError where \<^verbatim>\<open>evaluate\<close> returns true.
\<close>

theorem createEvaluator_not_callable:
  "parse ''slow and not integration'' =
     Inr (AndExpression (IdentifierExpression ''slow'')
            (NotExpression (IdentifierExpression ''integration''))) \<and>
   js_call (JsObject (createEvaluator
       (AndExpression (IdentifierExpression ''slow'')
          (NotExpression (IdentifierExpression ''integration''))))) [''slow'', ''unit''] = Inl TypeError \<and>
   evaluate (AndExpression (IdentifierExpression ''slow'')
      (NotExpression (IdentifierExpression ''integration''))) [''slow'', ''unit''] = True"
  by (simp add: parse_readme_example js_call_def evaluate_eval evaluateIdentifier_def)

subsection \<open>Tokenizer: surrounding whitespace\<close>

text \<open>
  Whitespace after a token does not change it: the token read from \<open>rest @ w\<close>, with
  \<open>w\<close> made of whitespace, has the type and value of the token read from \<open>rest\<close>, and
  what follows it is what follows in \<open>rest\<close>, with \<open>w\<close> appended.
\<close>

lemma takeWhile_not_delimiter_append:
  assumes "\<forall>c \<in> set w. isSpaceChar c"
  shows "takeWhile (\<lambda>c. \<not> isDelimiter c) (xs @ w) = takeWhile (\<lambda>c. \<not> isDelimiter c) xs"
    and "dropWhile (\<lambda>c. \<not> isDelimiter c) (xs @ w) = dropWhile (\<lambda>c. \<not> isDelimiter c) xs @ w"
proof -
  have w: "takeWhile (\<lambda>c. \<not> isDelimiter c) w = []" "dropWhile (\<lambda>c. \<not> isDelimiter c) w = w"
    using assms by (cases w; simp add: isDelimiter_def isSpaceChar_def)+
  show "takeWhile (\<lambda>c. \<not> isDelimiter c) (xs @ w) = takeWhile (\<lambda>c. \<not> isDelimiter c) xs"
    using w by (induction xs) simp_all
  show "dropWhile (\<lambda>c. \<not> isDelimiter c) (xs @ w) = dropWhile (\<lambda>c. \<not> isDelimiter c) xs @ w"
    using w by (induction xs) simp_all
qed

lemma dropWhile_space_append:
  assumes "\<forall>c \<in> set w. isSpaceChar c"
  shows "dropWhile isSpaceChar (xs @ w) =
           (if dropWhile isSpaceChar xs = [] then [] else dropWhile isSpaceChar xs @ w)"
proof -
  have w: "dropWhile isSpaceChar w = []"
    using assms by simp
  show ?thesis
    using w by (induction xs) simp_all
qed

lemma tokenAt_append_space:
  assumes "tokenAt rest tok2 rest2" and "tokenAt (rest @ w) tok1 rest1"
    and "rest \<noteq> []" and "\<forall>c \<in> set w. isSpaceChar c"
  shows "typeAndValue tok1 = typeAndValue tok2 \<and> rest1 = rest2 @ w"
proof -
  obtain c cs where r: "rest = c # cs"
    using assms(3) by (cases rest) auto
  note tw = takeWhile_not_delimiter_append[OF assms(4), of rest]
  show ?thesis
  proof (cases "c = CHR ''('' \<or> c = CHR '')''")
    case True
    then show ?thesis
      using assms(1,2) r by (auto simp: tokenAt_def typeAndValue_def)
  next
    case False
    have "tok_type tok2 = classify (takeWhile (\<lambda>c. \<not> isDelimiter c) rest)"
      "tok_value tok2 = takeWhile (\<lambda>c. \<not> isDelimiter c) rest"
      "rest2 = dropWhile (\<lambda>c. \<not> isDelimiter c) rest"
      using assms(1) r False by (simp_all add: tokenAt_def)
    moreover have "tok_type tok1 = classify (takeWhile (\<lambda>c. \<not> isDelimiter c) (rest @ w))"
      "tok_value tok1 = takeWhile (\<lambda>c. \<not> isDelimiter c) (rest @ w)"
      "rest1 = dropWhile (\<lambda>c. \<not> isDelimiter c) (rest @ w)"
      using assms(2) r False by (simp_all add: tokenAt_def)
    ultimately show ?thesis
      using tw by (simp add: typeAndValue_def)
  qed
qed

text \<open>
  Two runs of the token loop, one on characters \<open>w0 @ rest @ w\<close> and one on \<open>rest\<close>,
  with \<open>w0\<close> and \<open>w\<close> made of whitespace, push tokens of the same types and values.
\<close>

lemma tokenize_loop_whitespace:
  assumes "drop (position st1) (input st1) = w0 @ drop (position st2) (input st2) @ w"
    and "\<forall>c \<in> set w0. isSpaceChar c" and "\<forall>c \<in> set w. isSpaceChar c"
  shows "\<exists>new1 new2. tokenize_loop acc1 st1 = Inr (acc1 @ new1) \<and>
           tokenize_loop acc2 st2 = Inr (acc2 @ new2) \<and>
           map typeAndValue new1 = map typeAndValue new2"
  using assms
proof (induction acc2 st2 arbitrary: acc1 st1 w0 rule: tokenize_loop.induct)
  case (1 acc2 st2)
  let ?r1 = "dropWhile isSpaceChar (drop (position st1) (input st1))"
  let ?r2 = "dropWhile isSpaceChar (drop (position st2) (input st2))"
  obtain tok1 s1 where n1: "nextToken st1 = Inr (tok1, s1)" and i1: "input s1 = input st1"
    and t1: "tokenAt ?r1 tok1 (drop (position s1) (input st1))"
    using nextToken_spec[of st1] by blast
  obtain tok2 s2 where n2: "nextToken st2 = Inr (tok2, s2)" and i2: "input s2 = input st2"
    and t2: "tokenAt ?r2 tok2 (drop (position s2) (input st2))"
    using nextToken_spec[of st2] by blast
  have d0: "dropWhile isSpaceChar w0 = []"
    using "1.prems"(2) by simp
  have "?r1 = dropWhile isSpaceChar (drop (position st2) (input st2) @ w)"
    using "1.prems"(1,2) by (simp add: dropWhile_append2)
  then have r1: "?r1 = (if ?r2 = [] then [] else ?r2 @ w)"
    using dropWhile_space_append[OF "1.prems"(3)] by simp
  show ?case
  proof (cases "?r2 = []")
    case True
    have "tokenAt [] tok2 (drop (position s2) (input st2))"
      using t2 unfolding True .
    then have e2: "tok_type tok2 = EOF" "tok_value tok2 = []"
      by (simp_all add: tokenAt_def)
    have r1e: "?r1 = []" using r1 True by simp
    have "tokenAt [] tok1 (drop (position s1) (input st1))"
      using t1 unfolding r1e .
    then have e1: "tok_type tok1 = EOF" "tok_value tok1 = []"
      by (simp_all add: tokenAt_def)
    have "tokenize_loop acc1 st1 = Inr (acc1 @ [tok1])"
      using n1 e1 by (subst tokenize_loop.simps) simp
    moreover have "tokenize_loop acc2 st2 = Inr (acc2 @ [tok2])"
      using n2 e2 by (subst tokenize_loop.simps) simp
    moreover have "map typeAndValue [tok1] = map typeAndValue [tok2]"
      using e1 e2 by (simp add: typeAndValue_def)
    ultimately show ?thesis by blast
  next
    case False
    then have ne2: "tok_type tok2 \<noteq> EOF"
      using tokenAt_EOF[OF t2] by simp
    have r1': "?r1 = ?r2 @ w" using r1 by (simp only: False if_False)
    then have ne1: "tok_type tok1 \<noteq> EOF"
      using tokenAt_EOF[OF t1] False by simp
    have t1': "tokenAt (?r2 @ w) tok1 (drop (position s1) (input st1))"
      using t1 r1' by simp
    have same: "typeAndValue tok1 = typeAndValue tok2"
      and rest: "drop (position s1) (input s1) = [] @ drop (position s2) (input s2) @ w"
      using tokenAt_append_space[OF t2 t1' False "1.prems"(3)] i1 i2 by simp_all
    have e: "\<forall>c \<in> set ([] :: string). isSpaceChar c"
      by simp
    obtain new1 new2 where
      l1: "tokenize_loop (acc1 @ [tok1]) s1 = Inr ((acc1 @ [tok1]) @ new1)" and
      l2: "tokenize_loop (acc2 @ [tok2]) s2 = Inr ((acc2 @ [tok2]) @ new2)" and
      m: "map typeAndValue new1 = map typeAndValue new2"
      using "1.IH"[OF n2 refl ne2 rest e "1.prems"(3), of "acc1 @ [tok1]"] by blast
    have "tokenize_loop acc1 st1 = Inr (acc1 @ tok1 # new1)"
      using n1 ne1 l1 by (subst tokenize_loop.simps) simp
    moreover have "tokenize_loop acc2 st2 = Inr (acc2 @ tok2 # new2)"
      using n2 ne2 l2 by (subst tokenize_loop.simps) simp
    moreover have "map typeAndValue (tok1 # new1) = map typeAndValue (tok2 # new2)"
      using same m by simp
    ultimately show ?thesis by blast
  qed
qed

lemma tokenize_a_spaced:
  "tokenize '' a '' =
     Inr [\<lparr>tok_type = IDENTIFIER, tok_value = ''a'', tok_position = 1, tok_line = 1, tok_column = 2\<rparr>,
          \<lparr>tok_type = EOF, tok_value = '''', tok_position = 3, tok_line = 1, tok_column = 4\<rparr>]"
  by code_simp

lemma tokenize_a:
  "tokenize ''a'' =
     Inr [\<lparr>tok_type = IDENTIFIER, tok_value = ''a'', tok_position = 0, tok_line = 1, tok_column = 1\<rparr>,
          \<lparr>tok_type = EOF, tok_value = '''', tok_position = 1, tok_line = 1, tok_column = 2\<rparr>]"
  by code_simp

text \<open>
  C9. Whitespace around the input changes neither the types nor the values of the tokens:
  for every string \<open>s\<close> and all strings \<open>w1\<close> and \<open>w2\<close> of spaces, tabs, line feeds and
  carriage returns, \<^verbatim>\<open>tokenize\<close> of \<open>w1 @ s @ w2\<close> and \<^verbatim>\<open>tokenize\<close> of \<open>s\<close> give token
  sequences of the same length that agree token by token in type and value. The instance
  of the specification is \<^verbatim>\<open>a\<close> between two spaces against \<^verbatim>\<open>a\<close>, where the positions and
  columns differ.
\<close>

theorem whitespace_invariance:
  assumes "\<forall>c \<in> set w1. isWhitespace (Some c)" and "\<forall>c \<in> set w2. isWhitespace (Some c)"
  shows "\<exists>ts1 ts2. tokenize (w1 @ s @ w2) = Inr ts1 \<and> tokenize s = Inr ts2 \<and>
           length ts1 = length ts2 \<and> map typeAndValue ts1 = map typeAndValue ts2"
proof -
  let ?st1 = "\<lparr>input = w1 @ s @ w2, position = 0, line = 1, column = 1\<rparr>"
  let ?st2 = "\<lparr>input = s, position = 0, line = 1, column = 1\<rparr>"
  have d: "drop (position ?st1) (input ?st1) = w1 @ drop (position ?st2) (input ?st2) @ w2"
    by simp
  have a: "\<forall>c \<in> set w1. isSpaceChar c" "\<forall>c \<in> set w2. isSpaceChar c"
    using assms by (simp_all add: isSpaceChar_def)
  obtain new1 new2 where l: "tokenize_loop [] ?st1 = Inr ([] @ new1)"
      "tokenize_loop [] ?st2 = Inr ([] @ new2)" "map typeAndValue new1 = map typeAndValue new2"
    using tokenize_loop_whitespace[OF d a, of "[]" "[]"] by blast
  have "length new1 = length new2"
    using l(3) map_eq_imp_length_eq by blast
  then show ?thesis
    using l by (simp add: tokenize_def)
qed

theorem whitespace_invariance_witness:
  "\<exists>ts1 ts2. tokenize '' a '' = Inr ts1 \<and> tokenize ''a'' = Inr ts2 \<and>
     length ts1 = length ts2 \<and> map typeAndValue ts1 = map typeAndValue ts2 \<and>
     map tok_position ts1 \<noteq> map tok_position ts2"
proof -
  have h: "\<forall>c \<in> set '' ''. isWhitespace (Some c)"
    by (simp add: isWhitespace_def)
  have "\<exists>ts1 ts2. tokenize ('' '' @ ''a'' @ '' '') = Inr ts1 \<and> tokenize ''a'' = Inr ts2 \<and>
           length ts1 = length ts2 \<and> map typeAndValue ts1 = map typeAndValue ts2"
    by (rule whitespace_invariance[OF h h])
  then show ?thesis
    by (simp add: tokenize_a_spaced tokenize_a)
qed

subsection \<open>Parser: the cursor stays on the token array\<close>

text \<open>
  C10. Let \<open>ts\<close> be a token stream produced by the tokenizer and \<open>p\<close> a parser state on
  \<open>ts\<close> whose cursor is inside the array. Then every rule of the parser, and \<^verbatim>\<open>parse\<close>
  itself, returns without a failed token lookup (no TypeError), leaves the cursor inside
  the array, so at most on the trailing EOF token, never moves it backwards, and has
  advanced over tokens other than EOF only.
\<close>

theorem parser_cursor_never_passes_EOF:
  assumes "tokenize inp = Inr ts" and "tokens p = ts" and "current p < length ts"
  shows "\<forall>f \<in> {expression, orExpression, orExpression_loop left, andExpression,
                 andExpression_loop left, notExpression, primary, Parser_parse}.
           fst (f p) \<noteq> Inl TypeError \<and> tokens (snd (f p)) = ts \<and>
           current p \<le> current (snd (f p)) \<and> current (snd (f p)) < length ts \<and>
           (\<forall>i. current p \<le> i \<and> i < current (snd (f p)) \<longrightarrow> tok_type (ts ! i) \<noteq> EOF)"
proof -
  obtain ts' where "tokenize inp = Inr ts'" and "ts' \<noteq> []" and "tok_type (last ts') = EOF"
    using tokenize_shape by blast
  then have b: "inBounds p"
    using assms by (simp add: inBounds_def)
  define Q where "Q res \<longleftrightarrow>
      fst res \<noteq> Inl TypeError \<and> tokens (snd res) = ts \<and>
      current p \<le> current (snd res) \<and> current (snd res) < length ts \<and>
      (\<forall>i. current p \<le> i \<and> i < current (snd res) \<longrightarrow> tok_type (ts ! i) \<noteq> EOF)"
    for res :: "(error + Expression) \<times> Parser"
  have k: "Q res" if "ok p res" for res
    unfolding Q_def using that b assms(2) by (auto simp: ok_def follows_def inBounds_def)
  have "\<forall>f \<in> {expression, orExpression, orExpression_loop left, andExpression,
                 andExpression_loop left, notExpression, primary, Parser_parse}. Q (f p)"
    using k[OF parser_ok(1)] k[OF parser_ok(2)] k[OF parser_ok(3)] k[OF parser_ok(4)]
      k[OF parser_ok(5)] k[OF parser_ok(6)] k[OF parser_ok(7)] k[OF Parser_parse_ok]
    by simp
  then show ?thesis
    unfolding Q_def .
qed

lemma tokenize_unclosed:
  "tokenize ''(a'' =
     Inr [\<lparr>tok_type = LEFT_PAREN, tok_value = ''('', tok_position = 0, tok_line = 1, tok_column = 1\<rparr>,
          \<lparr>tok_type = IDENTIFIER, tok_value = ''a'', tok_position = 1, tok_line = 1, tok_column = 2\<rparr>,
          \<lparr>tok_type = EOF, tok_value = '''', tok_position = 2, tok_line = 1, tok_column = 3\<rparr>]"
  by code_simp

theorem parser_cursor_never_passes_EOF_witness:
  "\<exists>ts. tokenize ''(a'' = Inr ts \<and>
     fst (Parser_parse \<lparr>tokens = ts, current = 0\<rparr>) \<noteq> Inl TypeError \<and>
     current (snd (Parser_parse \<lparr>tokens = ts, current = 0\<rparr>)) < length ts"
proof -
  let ?ts = "[\<lparr>tok_type = LEFT_PAREN, tok_value = ''('', tok_position = 0, tok_line = 1, tok_column = 1\<rparr>,
          \<lparr>tok_type = IDENTIFIER, tok_value = ''a'', tok_position = 1, tok_line = 1, tok_column = 2\<rparr>,
          \<lparr>tok_type = EOF, tok_value = '''', tok_position = 2, tok_line = 1, tok_column = 3\<rparr>]"
  let ?p = "\<lparr>tokens = ?ts, current = 0\<rparr>"
  have h1: "tokenize ''(a'' = Inr ?ts"
    by (rule tokenize_unclosed)
  have h2: "tokens ?p = ?ts"
    by simp
  have h3: "current ?p < length ?ts"
    by simp
  have mem: "Parser_parse \<in> {expression, orExpression, orExpression_loop left, andExpression,
                 andExpression_loop left, notExpression, primary, Parser_parse}" for left
    by simp
  note t = bspec[OF parser_cursor_never_passes_EOF[OF h1 h2 h3] mem]
  show ?thesis
    by (intro exI[of _ "?ts"] conjI h1 t[THEN conjunct1]
          t[THEN conjunct2, THEN conjunct2, THEN conjunct2, THEN conjunct1])
qed

end
